theory Spec2Isabelle
  imports Complex_Main "HOL-Library.Sublist" "HOL-Library.Word"
begin

section \<open>Client state reducer (App.jsx, handleSendMessage)\<close>

text \<open>
  The event callback passed to \<^verbatim>\<open>api.sendMessageStream\<close> receives \<^verbatim>\<open>(eventType, event)\<close>
  and updates the React state of \<^verbatim>\<open>App\<close>. JavaScript objects become records whose
  optional members are \<open>option\<close> values (\<open>None\<close> stands for \<^verbatim>\<open>null\<close> and
  \<^verbatim>\<open>undefined\<close>, which the code never tells apart), a thrown \<^verbatim>\<open>TypeError\<close> becomes
  the left summand of the result.
\<close>

datatype js_error = TypeError

text \<open>
  \<^verbatim>\<open>event.data\<close> of an arrival event, which is also what the stage lists hold:
  \<^verbatim>\<open>{model, response}\<close>, \<^verbatim>\<open>{model, ranking, parsed_ranking}\<close> or \<^verbatim>\<open>{model, failed: true}\<close>.
  \<open>failed\<close> is the truthiness of the member.
\<close>

record response_data =
  model :: string
  response :: "string option"
  ranking :: "string option"
  parsed_ranking :: "string list option"
  failed :: bool

text \<open>The reducer stores the leaderboard without looking into it.\<close>

record aggregate_entry =
  agg_model :: string
  average_rank :: real
  rankings_count :: nat

record stage_metadata =
  label_to_model :: "(string \<times> string) list option"
  aggregate_rankings :: "aggregate_entry list option"

record loading_flags =
  loading_stage1 :: bool
  loading_stage2 :: bool
  loading_stage3 :: bool

text \<open>
  A message of the conversation. The assistant message that \<^verbatim>\<open>handleSendMessage\<close> creates
  has \<^verbatim>\<open>stage1 = stage2 = stage3 = metadata = null\<close>, all \<^verbatim>\<open>loading\<close> flags false and no
  pending lists; a user message has none of the stage members and no \<^verbatim>\<open>loading\<close>.
\<close>

record message =
  role :: string
  content :: "string option"
  msg_images :: "string list option"
  stage1 :: "response_data list option"
  stage2 :: "response_data list option"
  stage3 :: "string option"
  metadata :: "stage_metadata option"
  loading :: "loading_flags option"
  stage1PendingModels :: "string list option"
  stage2PendingModels :: "string list option"

record conversation =
  conv_id :: string
  messages :: "message list"

datatype effect = LoadConversations | ConsoleError string | ConsoleLog string

text \<open>
  The part of the state of \<^verbatim>\<open>App\<close> the callback touches: \<^verbatim>\<open>currentConversation\<close>
  (initially \<^verbatim>\<open>null\<close>), \<^verbatim>\<open>isLoading\<close>, and the calls it makes to the console and to
  \<^verbatim>\<open>loadConversations\<close>, in order.
\<close>

record app =
  currentConversation :: "conversation option"
  isLoading :: bool
  effects :: "effect list"

text \<open>The events of the stream, by \<^verbatim>\<open>eventType\<close>, with the members of \<^verbatim>\<open>event\<close> the callback reads.\<close>

datatype event =
    Stage1_start "string list option"
  | Stage1_response response_data
  | Stage1_complete "response_data list"
  | Stage2_start "string list option" "stage_metadata option"
  | Stage2_response response_data
  | Stage2_complete "response_data list" "stage_metadata option"
  | Stage3_start
  | Stage3_complete string
  | Title_complete
  | Complete
  | Error string
  | Unknown string

text \<open>\<^verbatim>\<open>x || []\<close>\<close>

definition orEmpty :: "'a list option \<Rightarrow> 'a list" where
  "orEmpty x = (case x of None \<Rightarrow> [] | Some xs \<Rightarrow> xs)"

text \<open>
  Every updater starts with
  \<^verbatim>\<open>const messages = [...prev.messages]; const lastMsg = messages[messages.length - 1];\<close>
  changes \<^verbatim>\<open>lastMsg\<close> and returns \<^verbatim>\<open>{ ...prev, messages }\<close>. With \<^verbatim>\<open>prev\<close> null reading
  \<^verbatim>\<open>prev.messages\<close> throws; with no message \<^verbatim>\<open>lastMsg\<close> is undefined and the first member
  access throws.
\<close>

definition updateLastMsg ::
  "(message \<Rightarrow> js_error + message) \<Rightarrow> conversation option \<Rightarrow> js_error + conversation option" where
  "updateLastMsg f prev =
     (case prev of
        None \<Rightarrow> Inl TypeError
      | Some c \<Rightarrow>
          if messages c = [] then Inl TypeError
          else (case f (last (messages c)) of
                  Inl e \<Rightarrow> Inl e
                | Inr m \<Rightarrow> Inr (Some (c\<lparr>messages := butlast (messages c) @ [m]\<rparr>))))"

text \<open>\<^verbatim>\<open>lastMsg.loading.stageN = b\<close>: throws when \<^verbatim>\<open>lastMsg.loading\<close> is undefined.\<close>

definition setLoading ::
  "(loading_flags \<Rightarrow> loading_flags) \<Rightarrow> message \<Rightarrow> js_error + message" where
  "setLoading upd m =
     (case loading m of
        None \<Rightarrow> Inl TypeError
      | Some l \<Rightarrow> Inr (m\<lparr>loading := Some (upd l)\<rparr>))"

definition stage1_start :: "string list option \<Rightarrow> message \<Rightarrow> js_error + message" where
  "stage1_start models lastMsg =
     (case setLoading (\<lambda>l. l\<lparr>loading_stage1 := True\<rparr>) lastMsg of
        Inl e \<Rightarrow> Inl e
      | Inr m \<Rightarrow> Inr (m\<lparr>stage1 := Some [], stage1PendingModels := Some (orEmpty models)\<rparr>))"

definition stage1_response :: "response_data \<Rightarrow> message \<Rightarrow> js_error + message" where
  "stage1_response d lastMsg =
     (let modelName = model d;
          m = lastMsg\<lparr>stage1PendingModels :=
                Some (filter (\<lambda>x. x \<noteq> modelName) (orEmpty (stage1PendingModels lastMsg)))\<rparr>
      in if \<not> failed d then
           (let existingModels = map model (orEmpty (stage1 m))
            in if modelName \<notin> set existingModels
               then Inr (m\<lparr>stage1 := Some (orEmpty (stage1 m) @ [d])\<rparr>)
               else Inr m)
         else Inr m)"

definition stage1_complete :: "response_data list \<Rightarrow> message \<Rightarrow> js_error + message" where
  "stage1_complete dat lastMsg =
     (case setLoading (\<lambda>l. l\<lparr>loading_stage1 := False\<rparr>) (lastMsg\<lparr>stage1 := Some dat\<rparr>) of
        Inl e \<Rightarrow> Inl e
      | Inr m \<Rightarrow> Inr (m\<lparr>stage1PendingModels := Some []\<rparr>))"

text \<open>
  \<^verbatim>\<open>if (event.metadata?.label_to_model)
    lastMsg.metadata = { ...lastMsg.metadata, label_to_model: event.metadata.label_to_model }\<close>
\<close>

definition mergeLabelToModel :: "stage_metadata option \<Rightarrow> message \<Rightarrow> message" where
  "mergeLabelToModel md m =
     (case md of
        None \<Rightarrow> m
      | Some e \<Rightarrow>
          (case label_to_model e of
             None \<Rightarrow> m
           | Some ltm \<Rightarrow>
               m\<lparr>metadata := Some
                 ((case metadata m of
                     None \<Rightarrow> \<lparr>label_to_model = None, aggregate_rankings = None\<rparr>
                   | Some old \<Rightarrow> old)\<lparr>label_to_model := Some ltm\<rparr>)\<rparr>))"

definition stage2_start ::
  "string list option \<Rightarrow> stage_metadata option \<Rightarrow> message \<Rightarrow> js_error + message" where
  "stage2_start models md lastMsg =
     (case setLoading (\<lambda>l. l\<lparr>loading_stage2 := True\<rparr>) lastMsg of
        Inl e \<Rightarrow> Inl e
      | Inr m \<Rightarrow>
          Inr (mergeLabelToModel md
                 (m\<lparr>stage2 := Some [], stage2PendingModels := Some (orEmpty models)\<rparr>)))"

definition stage2_response :: "response_data \<Rightarrow> message \<Rightarrow> js_error + message" where
  "stage2_response d lastMsg =
     (let modelName = model d;
          m = lastMsg\<lparr>stage2PendingModels :=
                Some (filter (\<lambda>x. x \<noteq> modelName) (orEmpty (stage2PendingModels lastMsg)))\<rparr>
      in if \<not> failed d then
           (let existingModels = map model (orEmpty (stage2 m))
            in if modelName \<notin> set existingModels
               then Inr (m\<lparr>stage2 := Some (orEmpty (stage2 m) @ [d])\<rparr>)
               else Inr m)
         else Inr m)"

definition stage2_complete ::
  "response_data list \<Rightarrow> stage_metadata option \<Rightarrow> message \<Rightarrow> js_error + message" where
  "stage2_complete dat md lastMsg =
     (case setLoading (\<lambda>l. l\<lparr>loading_stage2 := False\<rparr>)
             (lastMsg\<lparr>stage2 := Some dat, metadata := md\<rparr>) of
        Inl e \<Rightarrow> Inl e
      | Inr m \<Rightarrow> Inr (m\<lparr>stage2PendingModels := Some []\<rparr>))"

definition stage3_start :: "message \<Rightarrow> js_error + message" where
  "stage3_start lastMsg = setLoading (\<lambda>l. l\<lparr>loading_stage3 := True\<rparr>) lastMsg"

definition stage3_complete :: "string \<Rightarrow> message \<Rightarrow> js_error + message" where
  "stage3_complete dat lastMsg =
     setLoading (\<lambda>l. l\<lparr>loading_stage3 := False\<rparr>) (lastMsg\<lparr>stage3 := Some dat\<rparr>)"

text \<open>\<^verbatim>\<open>setCurrentConversation((prev) => ...)\<close> with one of the updaters above.\<close>

definition setCurrentConversation ::
  "(message \<Rightarrow> js_error + message) \<Rightarrow> app \<Rightarrow> js_error + app" where
  "setCurrentConversation f s =
     (case updateLastMsg f (currentConversation s) of
        Inl e \<Rightarrow> Inl e
      | Inr c \<Rightarrow> Inr (s\<lparr>currentConversation := c\<rparr>))"

text \<open>The \<^verbatim>\<open>switch (eventType)\<close> of the callback.\<close>

fun onEvent :: "event \<Rightarrow> app \<Rightarrow> js_error + app" where
  "onEvent (Stage1_start models) s = setCurrentConversation (stage1_start models) s"
| "onEvent (Stage1_response d) s = setCurrentConversation (stage1_response d) s"
| "onEvent (Stage1_complete dat) s = setCurrentConversation (stage1_complete dat) s"
| "onEvent (Stage2_start models md) s = setCurrentConversation (stage2_start models md) s"
| "onEvent (Stage2_response d) s = setCurrentConversation (stage2_response d) s"
| "onEvent (Stage2_complete dat md) s = setCurrentConversation (stage2_complete dat md) s"
| "onEvent Stage3_start s = setCurrentConversation stage3_start s"
| "onEvent (Stage3_complete dat) s = setCurrentConversation (stage3_complete dat) s"
| "onEvent Title_complete s = Inr (s\<lparr>effects := effects s @ [LoadConversations]\<rparr>)"
| "onEvent Complete s =
     Inr (s\<lparr>effects := effects s @ [LoadConversations], isLoading := False\<rparr>)"
| "onEvent (Error msg) s =
     Inr (s\<lparr>effects := effects s @ [ConsoleError msg], isLoading := False\<rparr>)"
| "onEvent (Unknown eventType) s = Inr (s\<lparr>effects := effects s @ [ConsoleLog eventType]\<rparr>)"

text \<open>The events of a stream in order; an exception ends the run.\<close>

fun run :: "event list \<Rightarrow> app \<Rightarrow> js_error + app" where
  "run [] s = Inr s"
| "run (e # es) s = (case onEvent e s of Inl err \<Rightarrow> Inl err | Inr s' \<Rightarrow> run es s')"

text \<open>What the interface shows of the turn: the members of the last message.\<close>

definition lastMsgOf :: "app \<Rightarrow> message option" where
  "lastMsgOf s =
     (case currentConversation s of
        None \<Rightarrow> None
      | Some c \<Rightarrow> if messages c = [] then None else Some (last (messages c)))"

definition stage1List :: "app \<Rightarrow> response_data list" where
  "stage1List s = (case lastMsgOf s of None \<Rightarrow> [] | Some m \<Rightarrow> orEmpty (stage1 m))"

definition stage2List :: "app \<Rightarrow> response_data list" where
  "stage2List s = (case lastMsgOf s of None \<Rightarrow> [] | Some m \<Rightarrow> orEmpty (stage2 m))"

definition pending1 :: "app \<Rightarrow> string list" where
  "pending1 s = (case lastMsgOf s of None \<Rightarrow> [] | Some m \<Rightarrow> orEmpty (stage1PendingModels m))"

definition pending2 :: "app \<Rightarrow> string list" where
  "pending2 s = (case lastMsgOf s of None \<Rightarrow> [] | Some m \<Rightarrow> orEmpty (stage2PendingModels m))"

text \<open>
  The state has a turn to update: a current conversation whose last message carries
  \<^verbatim>\<open>loading\<close> flags, as the assistant message of \<^verbatim>\<open>handleSendMessage\<close> does.
\<close>

definition hasTurn :: "app \<Rightarrow> bool" where
  "hasTurn s = (case lastMsgOf s of None \<Rightarrow> False | Some m \<Rightarrow> loading m \<noteq> None)"

text \<open>The state with the last message replaced: what a successful updater returns.\<close>

definition replaceLastMsg :: "message \<Rightarrow> app \<Rightarrow> app" where
  "replaceLastMsg m s =
     s\<lparr>currentConversation :=
         map_option (\<lambda>c. c\<lparr>messages := butlast (messages c) @ [m]\<rparr>) (currentConversation s)\<rparr>"

text \<open>The arrival events: \<^verbatim>\<open>stage1_response\<close> and \<^verbatim>\<open>stage2_response\<close>.\<close>

fun isArrival :: "event \<Rightarrow> bool" where
  "isArrival (Stage1_response d) = True"
| "isArrival (Stage2_response d) = True"
| "isArrival e = False"

text \<open>How many entries of a stage list belong to a model.\<close>

definition entriesFor :: "string \<Rightarrow> response_data list \<Rightarrow> nat" where
  "entriesFor k xs = length (filter (\<lambda>r. model r = k) xs)"

subsection \<open>The messages \<^verbatim>\<open>handleSendMessage\<close> appends when a turn starts\<close>

text \<open>\<^verbatim>\<open>{ role: 'user', content }\<close>, sent without images.\<close>

definition userMessage :: "string \<Rightarrow> message" where
  "userMessage text =
     \<lparr>role = ''user'', content = Some text, msg_images = None, stage1 = None, stage2 = None,
      stage3 = None, metadata = None, loading = None, stage1PendingModels = None,
      stage2PendingModels = None\<rparr>"

text \<open>
  \<^verbatim>\<open>{ role: 'assistant', stage1: null, stage2: null, stage3: null, metadata: null,
    loading: { stage1: false, stage2: false, stage3: false } }\<close>
\<close>

definition assistantMessage :: message where
  "assistantMessage =
     \<lparr>role = ''assistant'', content = None, msg_images = None, stage1 = None, stage2 = None,
      stage3 = None, metadata = None,
      loading = Some \<lparr>loading_stage1 = False, loading_stage2 = False, loading_stage3 = False\<rparr>,
      stage1PendingModels = None, stage2PendingModels = None\<rparr>"

text \<open>
  The state of \<^verbatim>\<open>App\<close> when a question has just been sent in a conversation that had no
  message: \<^verbatim>\<open>isLoading\<close> is set and both messages are appended.
\<close>

definition newTurn :: "string \<Rightarrow> string \<Rightarrow> app" where
  "newTurn cid question =
     \<lparr>currentConversation =
        Some \<lparr>conv_id = cid, messages = [userMessage question, assistantMessage]\<rparr>,
      isLoading = True, effects = []\<rparr>"

text \<open>\<^verbatim>\<open>{model, response}\<close>, \<^verbatim>\<open>{model, ranking, parsed_ranking}\<close> and \<^verbatim>\<open>{model, failed: true}\<close>.\<close>

definition answer :: "string \<Rightarrow> string \<Rightarrow> response_data" where
  "answer m r =
     \<lparr>model = m, response = Some r, ranking = None, parsed_ranking = None, failed = False\<rparr>"

definition critique :: "string \<Rightarrow> string \<Rightarrow> string list \<Rightarrow> response_data" where
  "critique m r p =
     \<lparr>model = m, response = None, ranking = Some r, parsed_ranking = Some p, failed = False\<rparr>"

definition failure :: "string \<Rightarrow> response_data" where
  "failure m =
     \<lparr>model = m, response = None, ranking = None, parsed_ranking = None, failed = True\<rparr>"

text \<open>
  The same turn after \<^verbatim>\<open>stage1_start\<close> with the models \<open>ms\<close>: stage 1 is loading, its
  list is empty and every model is pending.
\<close>

definition stage1Running :: "string \<Rightarrow> string \<Rightarrow> string list \<Rightarrow> app" where
  "stage1Running cid question ms =
     \<lparr>currentConversation =
        Some \<lparr>conv_id = cid,
              messages = [userMessage question,
                assistantMessage\<lparr>stage1 := Some [],
                  loading := Some \<lparr>loading_stage1 = True, loading_stage2 = False,
                                   loading_stage3 = False\<rparr>,
                  stage1PendingModels := Some ms\<rparr>]\<rparr>,
      isLoading = True, effects = []\<rparr>"

text \<open>
  A finished turn as \<^verbatim>\<open>api.getConversation\<close> returns it: the results of the stages, no
  \<^verbatim>\<open>loading\<close> flags and no pending lists (ChatInterface reads those with \<^verbatim>\<open>?.\<close>). In
  its stage 1 one model had answered.
\<close>

definition storedAssistantMessage :: message where
  "storedAssistantMessage =
     \<lparr>role = ''assistant'', content = None, msg_images = None,
      stage1 = Some [answer ''google/gemini-3-pro'' ''stored answer''],
      stage2 = Some [critique ''google/gemini-3-pro'' ''1. Response A'' [''Response A'']],
      stage3 = Some ''stored final answer'', metadata = None, loading = None,
      stage1PendingModels = None, stage2PendingModels = None\<rparr>"

text \<open>
  The state of \<^verbatim>\<open>App\<close> after the user, while the stream of a question sent in another
  conversation is live, has selected a conversation with a finished turn:
  \<^verbatim>\<open>handleSelectConversation\<close> does not look at \<^verbatim>\<open>isLoading\<close>, \<^verbatim>\<open>loadConversation\<close> makes the
  conversation the current one, and \<^verbatim>\<open>isLoading\<close> stays set until the stream ends.
\<close>

definition selectedMidStream :: app where
  "selectedMidStream =
     \<lparr>currentConversation =
        Some \<lparr>conv_id = ''c1'',
              messages = [userMessage ''earlier question'', storedAssistantMessage]\<rparr>,
      isLoading = True, effects = []\<rparr>"

section \<open>De-anonymisation (Stage2.jsx, deAnonymizeText)\<close>

text \<open>\<^verbatim>\<open>s.split(sep)\<close> for a separator of one character: \<^verbatim>\<open>''.split('/')\<close> is \<^verbatim>\<open>['']\<close>.\<close>

fun splitOn :: "char \<Rightarrow> string \<Rightarrow> string list" where
  "splitOn sep [] = [[]]"
| "splitOn sep (c # cs) =
     (if c = sep then [] # splitOn sep cs
      else (case splitOn sep cs of [] \<Rightarrow> [[c]] | p # ps \<Rightarrow> (c # p) # ps))"

text \<open>
  \<^verbatim>\<open>model.split('/')[1] || model\<close>: the second piece, unless there is none or it is the
  empty string.
\<close>

definition shortName :: "string \<Rightarrow> string" where
  "shortName m =
     (case splitOn CHR ''/'' m of
        a # b # rest \<Rightarrow> if b = [] then m else b
      | _ \<Rightarrow> m)"

text \<open>
  \<^verbatim>\<open>text.replace(new RegExp(pat, 'g'), rep)\<close> for a pattern without regular-expression
  syntax and a replacement without \<^verbatim>\<open>$\<close>: the matches are the occurrences of \<open>pat\<close>
  found from left to right, each search starting behind the previous match. The empty
  pattern matches before every character and at the end.
\<close>

function replaceGlobal :: "string \<Rightarrow> string \<Rightarrow> string \<Rightarrow> string" where
  "replaceGlobal pat rep [] = (if pat = [] then rep else [])"
| "replaceGlobal pat rep (c # cs) =
     (if pat = [] then rep @ c # replaceGlobal pat rep cs
      else if prefix pat (c # cs)
        then rep @ replaceGlobal pat rep (drop (length pat) (c # cs))
        else c # replaceGlobal pat rep cs)"
  by pat_completeness auto
termination
  by (relation "measure (\<lambda>(pat, rep, s). length s)") auto

text \<open>\<^verbatim>\<open>`**${modelShortName}**`\<close>\<close>

definition bold :: "string \<Rightarrow> string" where
  "bold m = ''**'' @ shortName m @ ''**''"

text \<open>
  \<^verbatim>\<open>labelToModel\<close> is an object: its entries as \<^verbatim>\<open>Object.entries\<close> lists them (for
  keys that are not numbers, in insertion order), \<open>None\<close> when the caller has no map (\<^verbatim>\<open>msg.metadata?.label_to_model\<close> undefined). \<^verbatim>\<open>forEach\<close> threads
  \<^verbatim>\<open>result\<close> through the entries.
\<close>

definition deAnonymizeText :: "string \<Rightarrow> (string \<times> string) list option \<Rightarrow> string" where
  "deAnonymizeText text labelToModel =
     (case labelToModel of
        None \<Rightarrow> text
      | Some entries \<Rightarrow>
          foldl (\<lambda>result (label, m). replaceGlobal label (bold m) result) text entries)"

text \<open>
  The characters with a meaning in a regular expression. A label without them is a
  pattern that matches itself only; a short name without \<^verbatim>\<open>$\<close> is inserted as it is.
  \<open>replaceGlobal\<close> is what the JavaScript does for such maps.
\<close>

definition regexSpecial :: "char list" where
  "regexSpecial = CHR 0x5C # ''^$.*+?()[]{}|''"

definition literalMap :: "(string \<times> string) list \<Rightarrow> bool" where
  "literalMap entries =
     list_all (\<lambda>(label, m). list_all (\<lambda>c. c \<notin> set regexSpecial) label
                 \<and> CHR ''$'' \<notin> set (shortName m)) entries"

text \<open>
  A map as the anonymizer builds it: the keys of an object are distinct, no label is
  empty, and no label occurs inside a short name.
\<close>

definition properMap :: "(string \<times> string) list \<Rightarrow> bool" where
  "properMap entries =
     (literalMap entries \<and> distinct (map fst entries)
      \<and> list_all (\<lambda>(label, m). label \<noteq> []
            \<and> list_all (\<lambda>(l', m'). \<not> sublist label (shortName m')) entries) entries)"

text \<open>No label of the map occurs in the text.\<close>

definition labelFree :: "(string \<times> string) list \<Rightarrow> string \<Rightarrow> bool" where
  "labelFree entries text = list_all (\<lambda>(label, m). \<not> sublist label text) entries"

text \<open>
  In the text \<open>a @ label @ b\<close> the label shown is the first occurrence of \<open>label\<close>, there
  is none behind it, and no other label of the map occurs.
\<close>

definition soleLabel :: "(string \<times> string) list \<Rightarrow> string \<Rightarrow> string \<Rightarrow> string \<Rightarrow> bool" where
  "soleLabel entries a label b =
     (\<not> sublist label (a @ butlast label) \<and> \<not> sublist label b
      \<and> list_all (\<lambda>(l', m'). l' = label \<or> \<not> sublist l' (a @ label @ b)) entries)"

text \<open>
  The substitution of every occurrence of every label, as the specification words it, in
  one pass from left to right: where a label of the map starts, the short name of its
  model is written (between \<^verbatim>\<open>**\<close>, as the code writes it) and the label is skipped;
  any other character is copied. \<open>matchLabel\<close> finds the first entry whose label (not
  empty) starts the text. The transform of the code is compared with it below.
\<close>

fun matchLabel :: "(string \<times> string) list \<Rightarrow> string \<Rightarrow> (string \<times> string) option" where
  "matchLabel [] t = None"
| "matchLabel ((l, m) # es) t =
     (if l \<noteq> [] \<and> prefix l t then Some (l, m) else matchLabel es t)"

function substituteAll :: "(string \<times> string) list \<Rightarrow> string \<Rightarrow> string" where
  "substituteAll es [] = []"
| "substituteAll es (c # cs) =
     (case matchLabel es (c # cs) of
        Some (l, m) \<Rightarrow> bold m @ substituteAll es (drop (length l - 1) cs)
      | None \<Rightarrow> c # substituteAll es cs)"
  by pat_completeness auto
termination
  by (relation "measure (\<lambda>(es, t). length t)") auto

text \<open>
  An occurrence of \<open>y\<close> can start at a position of \<open>x\<close>; two labels clash when an
  occurrence of one can start inside an occurrence of the other (for a label and itself:
  behind its first character). Without clashes the occurrences of the labels in a text
  do not overlap.
\<close>

fun startsInside :: "string \<Rightarrow> string \<Rightarrow> bool" where
  "startsInside [] y = False"
| "startsInside (c # cs) y = (prefix (c # cs) y \<or> prefix y (c # cs) \<or> startsInside cs y)"

definition clash :: "string \<Rightarrow> string \<Rightarrow> bool" where
  "clash x y = (if x = y then startsInside (tl x) y else startsInside x y)"

definition nonOverlapping :: "(string \<times> string) list \<Rightarrow> bool" where
  "nonOverlapping es = list_all (\<lambda>(x, m). list_all (\<lambda>(y, m'). \<not> clash x y) es) es"

section \<open>Attachments (ChatInterface.jsx)\<close>

definition MAX_FILE_SIZE :: nat where
  "MAX_FILE_SIZE = 10 * 1024 * 1024"

definition MAX_IMAGES :: nat where
  "MAX_IMAGES = 4"

definition ALLOWED_TYPES :: "string list" where
  "ALLOWED_TYPES = [''image/jpeg'', ''image/png'', ''image/gif'', ''image/webp'']"

text \<open>
  A \<^verbatim>\<open>File\<close>: its \<^verbatim>\<open>type\<close>, its \<^verbatim>\<open>size\<close> in bytes, and what \<^verbatim>\<open>FileReader.readAsDataURL\<close>
  makes of it (\<open>None\<close> when the reader fires \<^verbatim>\<open>onerror\<close>).
\<close>

record image_file =
  file_type :: string
  file_size :: nat
  file_dataUrl :: "string option"

datatype file_error = InvalidFileType string | FileTooLarge nat | FailedToReadFile

text \<open>The promise of \<^verbatim>\<open>processFile\<close>: rejected with an error, or resolved with the data URL.\<close>

definition processFile :: "image_file \<Rightarrow> file_error + string" where
  "processFile f =
     (if file_type f \<notin> set ALLOWED_TYPES then Inl (InvalidFileType (file_type f))
      else if file_size f > MAX_FILE_SIZE then Inl (FileTooLarge (file_size f))
      else (case file_dataUrl f of
              None \<Rightarrow> Inl FailedToReadFile
            | Some dataUrl \<Rightarrow> Inr dataUrl))"

datatype alert = MaximumImages | FileRejected file_error

text \<open>
  The loop of \<^verbatim>\<open>addImages\<close>. \<open>images\<close> is the constant of the render in which the handler
  was created; \<open>newImages\<close> and the alerts shown so far are the loop's state.
\<close>

fun addImagesLoop ::
  "string list \<Rightarrow> image_file list \<Rightarrow> string list \<Rightarrow> alert list \<Rightarrow> string list \<times> alert list" where
  "addImagesLoop images [] newImages alerts = (newImages, alerts)"
| "addImagesLoop images (f # files) newImages alerts =
     (if length images + length newImages \<ge> MAX_IMAGES
      then (newImages, alerts @ [MaximumImages])
      else (case processFile f of
              Inr dataUrl \<Rightarrow> addImagesLoop images files (newImages @ [dataUrl]) alerts
            | Inl err \<Rightarrow> addImagesLoop images files newImages (alerts @ [FileRejected err])))"

text \<open>
  \<^verbatim>\<open>addImages(files)\<close>: the loop, then
  \<^verbatim>\<open>if (newImages.length > 0) setImages((prev) => [...prev, ...newImages])\<close>.
  The loop counts with \<open>images\<close>, the list of the render that created the handler; the
  updater appends to \<open>prev\<close>, the list at the time React runs it. The function is
  \<^verbatim>\<open>async\<close> and waits for every file, so the two differ when another call commits in
  between.
\<close>

definition addImages ::
  "string list \<Rightarrow> image_file list \<Rightarrow> string list \<Rightarrow> string list \<times> alert list" where
  "addImages images files prev =
     (case addImagesLoop images files [] [] of
        (newImages, alerts) \<Rightarrow> (if newImages \<noteq> [] then prev @ newImages else prev, alerts))"

text \<open>
  The text of the input field is a JavaScript string: a sequence of UTF-16 code units.
  \<^verbatim>\<open>input.trim()\<close> removes white space and line terminators from both ends (tab, line
  feed, vertical tab, form feed, carriage return, space, no-break space, the space
  separators U+1680, U+2000 to U+200A, U+202F, U+205F and U+3000, the line and paragraph
  separators U+2028 and U+2029, and U+FEFF); what is left is truthy when a code unit of
  the input is none of these.
\<close>

type_synonym js_string = "16 word list"

definition whiteSpace :: "16 word list" where
  "whiteSpace =
     [0x0009, 0x000A, 0x000B, 0x000C, 0x000D, 0x0020, 0x00A0, 0x1680,
      0x2000, 0x2001, 0x2002, 0x2003, 0x2004, 0x2005, 0x2006, 0x2007, 0x2008, 0x2009, 0x200A,
      0x2028, 0x2029, 0x202F, 0x205F, 0x3000, 0xFEFF]"

definition nonBlank :: "js_string \<Rightarrow> bool" where
  "nonBlank input = (\<not> list_all (\<lambda>c. c \<in> set whiteSpace) input)"

text \<open>The code units of a text of ASCII characters.\<close>

definition codeUnits :: "string \<Rightarrow> js_string" where
  "codeUnits s = map of_char s"

text \<open>
  \<^verbatim>\<open>handleSubmit\<close>: the message given to \<^verbatim>\<open>onSendMessage\<close>, if any, and the input and
  images left in the form.
\<close>

definition handleSubmit ::
  "bool \<Rightarrow> js_string \<Rightarrow> string list
     \<Rightarrow> (js_string \<times> string list) option \<times> js_string \<times> string list" where
  "handleSubmit isLoading' input images =
     (if (nonBlank input \<or> images \<noteq> []) \<and> \<not> isLoading'
      then (Some (input, images), [], [])
      else (None, input, images))"

text \<open>A PNG of one kilobyte that the reader reads.\<close>

definition png :: "string \<Rightarrow> image_file" where
  "png dataUrl = \<lparr>file_type = ''image/png'', file_size = 1024, file_dataUrl = Some dataUrl\<rparr>"

section \<open>Council configuration (Settings.jsx)\<close>

text \<open>
  The members of \<^verbatim>\<open>config\<close> that removing a model reads and writes; \<open>None\<close> is an
  undefined \<^verbatim>\<open>chairman_model\<close>. The state of the component: the configuration and the
  error shown.
\<close>

record config =
  council_models :: "string list"
  chairman_model :: "string option"

record settings =
  settings_config :: config
  settings_error :: "string option"

text \<open>\<^verbatim>\<open>xs[0]\<close>\<close>

definition first :: "'a list \<Rightarrow> 'a option" where
  "first xs = (case xs of [] \<Rightarrow> None | x # _ \<Rightarrow> Some x)"

text \<open>\<^verbatim>\<open>handleRemoveModel\<close> of the first component of Settings.jsx (the collapsible menu).\<close>

definition handleRemoveModel :: "string \<Rightarrow> settings \<Rightarrow> settings" where
  "handleRemoveModel m st =
     (let cfg = settings_config st in
      if length (council_models cfg) > 1 then
        (let nextModels = filter (\<lambda>x. x \<noteq> m) (council_models cfg)
         in st\<lparr>settings_config := cfg\<lparr>council_models := nextModels,
               chairman_model :=
                 (if chairman_model cfg = Some m then first nextModels
                  else chairman_model cfg)\<rparr>\<rparr>)
      else st\<lparr>settings_error := Some ''At least one council model is required''\<rparr>)"

text \<open>
  \<^verbatim>\<open>handleRemoveModel\<close> of the second component of Settings.jsx (the overlay with
  \<^verbatim>\<open>onClose\<close>): the new chairman is read from the list before the removal.
\<close>

definition handleRemoveModel2 :: "string \<Rightarrow> settings \<Rightarrow> settings" where
  "handleRemoveModel2 m st =
     (let cfg = settings_config st in
      if length (council_models cfg) > 1 then
        st\<lparr>settings_config := cfg\<lparr>council_models := filter (\<lambda>x. x \<noteq> m) (council_models cfg),
             chairman_model :=
               (if chairman_model cfg = Some m then first (council_models cfg)
                else chairman_model cfg)\<rparr>\<rparr>
      else st\<lparr>settings_error := Some ''At least one council model is required''\<rparr>)"

text \<open>The chairman is one of the council models.\<close>

definition chairmanInCouncil :: "settings \<Rightarrow> bool" where
  "chairmanInCouncil st =
     (case chairman_model (settings_config st) of
        None \<Rightarrow> False
      | Some c \<Rightarrow> c \<in> set (council_models (settings_config st)))"

section \<open>Properties of the reducer\<close>

lemma orEmpty_simps: "orEmpty None = []" "orEmpty (Some xs) = xs"
  by (simp_all add: orEmpty_def)

lemma lastMsgOf_SomeD:
  "lastMsgOf s = Some m \<Longrightarrow>
     \<exists>c. currentConversation s = Some c \<and> messages c \<noteq> [] \<and> last (messages c) = m"
  by (auto simp: lastMsgOf_def split: option.splits if_splits)

lemma setCurrentConversation_Inr:
  assumes "lastMsgOf s = Some m" "f m = Inr m'"
  shows "setCurrentConversation f s = Inr (replaceLastMsg m' s)"
  using lastMsgOf_SomeD[OF assms(1)] assms(2)
  by (auto simp: setCurrentConversation_def updateLastMsg_def replaceLastMsg_def)

lemma lastMsgOf_replaceLastMsg:
  "lastMsgOf s = Some m \<Longrightarrow> lastMsgOf (replaceLastMsg m' s) = Some m'"
  by (auto simp: lastMsgOf_def replaceLastMsg_def split: option.splits if_splits)

lemma replaceLastMsg_frame:
  "isLoading (replaceLastMsg m' s) = isLoading s" "effects (replaceLastMsg m' s) = effects s"
  by (simp_all add: replaceLastMsg_def)

lemma hasTurnD: "hasTurn s \<Longrightarrow> \<exists>m l. lastMsgOf s = Some m \<and> loading m = Some l"
  by (auto simp: hasTurn_def split: option.splits)

lemma run_append:
  "run (xs @ ys) s = (case run xs s of Inl e \<Rightarrow> Inl e | Inr s' \<Rightarrow> run ys s')"
  by (induction xs arbitrary: s) (auto split: sum.splits)

subsection \<open>What one arrival event does to the last message\<close>

lemma stage1_response_failed:
  "failed d \<Longrightarrow> stage1_response d m =
     Inr (m\<lparr>stage1PendingModels :=
            Some (filter (\<lambda>x. x \<noteq> model d) (orEmpty (stage1PendingModels m)))\<rparr>)"
  by (simp add: stage1_response_def Let_def)

lemma stage2_response_failed:
  "failed d \<Longrightarrow> stage2_response d m =
     Inr (m\<lparr>stage2PendingModels :=
            Some (filter (\<lambda>x. x \<noteq> model d) (orEmpty (stage2PendingModels m)))\<rparr>)"
  by (simp add: stage2_response_def Let_def)

lemma stage1_response_Inr:
  "\<exists>m'. stage1_response d m = Inr m' \<and> loading m' = loading m \<and> stage2 m' = stage2 m
      \<and> stage2PendingModels m' = stage2PendingModels m
      \<and> stage1PendingModels m' =
           Some (filter (\<lambda>x. x \<noteq> model d) (orEmpty (stage1PendingModels m)))
      \<and> orEmpty (stage1 m') =
           (if \<not> failed d \<and> model d \<notin> set (map model (orEmpty (stage1 m)))
            then orEmpty (stage1 m) @ [d] else orEmpty (stage1 m))"
  by (simp add: stage1_response_def Let_def orEmpty_simps)

lemma stage2_response_Inr:
  "\<exists>m'. stage2_response d m = Inr m' \<and> loading m' = loading m \<and> stage1 m' = stage1 m
      \<and> stage1PendingModels m' = stage1PendingModels m
      \<and> stage2PendingModels m' =
           Some (filter (\<lambda>x. x \<noteq> model d) (orEmpty (stage2PendingModels m)))
      \<and> orEmpty (stage2 m') =
           (if \<not> failed d \<and> model d \<notin> set (map model (orEmpty (stage2 m)))
            then orEmpty (stage2 m) @ [d] else orEmpty (stage2 m))"
  by (simp add: stage2_response_def Let_def orEmpty_simps)

lemma entriesFor_snoc:
  assumes "model d \<notin> set (map model xs)"
  shows "entriesFor k (xs @ [d]) \<le> max 1 (entriesFor k xs)"
proof -
  from assms have "filter (\<lambda>r. model r = model d) xs = []"
    by (force simp: filter_empty_conv image_iff)
  then show ?thesis
    by (cases "model d = k") (auto simp: entriesFor_def)
qed

lemma max1_trans: "a \<le> max 1 b \<Longrightarrow> b \<le> max 1 c \<Longrightarrow> a \<le> max (1::nat) c"
  by arith

lemma arrival_step:
  assumes "lastMsgOf s = Some m" "isArrival e"
  shows "\<exists>s' m'. onEvent e s = Inr s' \<and> lastMsgOf s' = Some m' \<and> loading m' = loading m
      \<and> entriesFor k (stage1List s') \<le> max 1 (entriesFor k (stage1List s))
      \<and> entriesFor k (stage2List s') \<le> max 1 (entriesFor k (stage2List s))"
proof (cases e)
  case (Stage1_response d)
  obtain m' where m': "stage1_response d m = Inr m'" "loading m' = loading m"
      "stage2 m' = stage2 m"
      "orEmpty (stage1 m') =
           (if \<not> failed d \<and> model d \<notin> set (map model (orEmpty (stage1 m)))
            then orEmpty (stage1 m) @ [d] else orEmpty (stage1 m))"
    using stage1_response_Inr[of d m] by blast
  have "entriesFor k (orEmpty (stage1 m')) \<le> max 1 (entriesFor k (orEmpty (stage1 m)))"
    using entriesFor_snoc[of d "orEmpty (stage1 m)" k] by (simp add: m'(4))
  then show ?thesis
    using assms(1) m' Stage1_response
    by (simp add: setCurrentConversation_Inr[of s m _ m'] lastMsgOf_replaceLastMsg
        stage1List_def stage2List_def)
next
  case (Stage2_response d)
  obtain m' where m': "stage2_response d m = Inr m'" "loading m' = loading m"
      "stage1 m' = stage1 m"
      "orEmpty (stage2 m') =
           (if \<not> failed d \<and> model d \<notin> set (map model (orEmpty (stage2 m)))
            then orEmpty (stage2 m) @ [d] else orEmpty (stage2 m))"
    using stage2_response_Inr[of d m] by blast
  have "entriesFor k (orEmpty (stage2 m')) \<le> max 1 (entriesFor k (orEmpty (stage2 m)))"
    using entriesFor_snoc[of d "orEmpty (stage2 m)" k] by (simp add: m'(4))
  then show ?thesis
    using assms(1) m' Stage2_response
    by (simp add: setCurrentConversation_Inr[of s m _ m'] lastMsgOf_replaceLastMsg
        stage1List_def stage2List_def)
qed (use assms(2) in simp_all)

text \<open>
  A run of arrival events never throws, keeps the \<^verbatim>\<open>loading\<close> flags and adds to a stage
  list at most one entry for a model, and none when the model has an entry.
\<close>

lemma arrivals_run:
  assumes "lastMsgOf s = Some m" "list_all isArrival evs"
  shows "\<exists>s' m'. run evs s = Inr s' \<and> lastMsgOf s' = Some m' \<and> loading m' = loading m
      \<and> entriesFor k (stage1List s') \<le> max 1 (entriesFor k (stage1List s))
      \<and> entriesFor k (stage2List s') \<le> max 1 (entriesFor k (stage2List s))"
  using assms
proof (induction evs arbitrary: s m)
  case Nil
  then show ?case by simp
next
  case (Cons e evs)
  from Cons.prems have e: "isArrival e" and evs: "list_all isArrival evs" by simp_all
  from arrival_step[OF Cons.prems(1) e, of k] obtain s1 m1 where
    s1: "onEvent e s = Inr s1" "lastMsgOf s1 = Some m1" "loading m1 = loading m"
      "entriesFor k (stage1List s1) \<le> max 1 (entriesFor k (stage1List s))"
      "entriesFor k (stage2List s1) \<le> max 1 (entriesFor k (stage2List s))"
    by blast
  from Cons.IH[OF s1(2) evs] obtain s' m' where
    s': "run evs s1 = Inr s'" "lastMsgOf s' = Some m'" "loading m' = loading m1"
      "entriesFor k (stage1List s') \<le> max 1 (entriesFor k (stage1List s1))"
      "entriesFor k (stage2List s') \<le> max 1 (entriesFor k (stage2List s1))"
    by blast
  have "entriesFor k (stage1List s') \<le> max 1 (entriesFor k (stage1List s))"
    using s'(4) s1(4) by (rule max1_trans)
  moreover have "entriesFor k (stage2List s') \<le> max 1 (entriesFor k (stage2List s))"
    using s'(5) s1(5) by (rule max1_trans)
  ultimately show ?case
    using s1(1,3) s'(1,2,3) by simp
qed

lemma stage1_complete_Inr:
  "loading m = Some l \<Longrightarrow> \<exists>m'. stage1_complete dat m = Inr m' \<and> stage1 m' = Some dat
     \<and> stage1PendingModels m' = Some [] \<and> loading m' = Some (l\<lparr>loading_stage1 := False\<rparr>)"
  by (simp add: stage1_complete_def setLoading_def)

lemma stage2_complete_Inr:
  "loading m = Some l \<Longrightarrow> \<exists>m'. stage2_complete dat md m = Inr m' \<and> stage2 m' = Some dat
     \<and> metadata m' = md
     \<and> stage2PendingModels m' = Some [] \<and> loading m' = Some (l\<lparr>loading_stage2 := False\<rparr>)"
  by (simp add: stage2_complete_def setLoading_def)

subsection \<open>Convergence\<close>

text \<open>
  Claim C1. In a turn (a last message with \<^verbatim>\<open>loading\<close> flags), after any sequence of
  arrival events, duplicated or in any order, followed by \<^verbatim>\<open>stage1_complete\<close>, the run
  returns and the \<^verbatim>\<open>stage1\<close> list of the message is the payload of the completion event;
  after \<^verbatim>\<open>stage2_complete\<close> the \<^verbatim>\<open>stage2\<close> list is its payload and the metadata are the
  event's. What the arrival events had accumulated is replaced.
\<close>

theorem reducer_convergence:
  assumes "hasTurn s" and "list_all isArrival evs"
  shows "(\<exists>s' m'. run (evs @ [Stage1_complete dat]) s = Inr s' \<and> lastMsgOf s' = Some m'
            \<and> stage1 m' = Some dat \<and> stage1List s' = dat)
       \<and> (\<exists>s' m'. run (evs @ [Stage2_complete dat md]) s = Inr s' \<and> lastMsgOf s' = Some m'
            \<and> stage2 m' = Some dat \<and> stage2List s' = dat \<and> metadata m' = md)"
proof -
  from hasTurnD[OF assms(1)] obtain m l where m: "lastMsgOf s = Some m" "loading m = Some l"
    by blast
  from arrivals_run[OF m(1) assms(2)] obtain s1 m1 where
    s1: "run evs s = Inr s1" "lastMsgOf s1 = Some m1" "loading m1 = loading m"
    by blast
  have l1: "loading m1 = Some l" using s1(3) m(2) by simp
  from stage1_complete_Inr[OF l1, of dat] obtain a where
    a: "stage1_complete dat m1 = Inr a" "stage1 a = Some dat" by blast
  from stage2_complete_Inr[OF l1, of dat md] obtain b where
    b: "stage2_complete dat md m1 = Inr b" "stage2 b = Some dat" "metadata b = md" by blast
  show ?thesis
    using s1(1,2) a b
    by (simp add: run_append setCurrentConversation_Inr[of s1 m1 _ a]
        setCurrentConversation_Inr[of s1 m1 _ b] lastMsgOf_replaceLastMsg[OF s1(2)]
        stage1List_def stage2List_def orEmpty_simps)
qed

theorem reducer_convergence_witness:
  "hasTurn (newTurn ''c1'' ''q'')
   \<and> list_all isArrival
       [Stage1_response (answer ''openai/gpt-5.1'' ''a''),
        Stage1_response (answer ''openai/gpt-5.1'' ''a''),
        Stage2_response (failure ''x-ai/grok-4'')]
   \<and> (\<exists>s' m'. run ([Stage1_response (answer ''openai/gpt-5.1'' ''a''),
                     Stage1_response (answer ''openai/gpt-5.1'' ''a''),
                     Stage2_response (failure ''x-ai/grok-4'')]
                    @ [Stage1_complete [answer ''google/gemini-3-pro'' ''b'']])
                  (newTurn ''c1'' ''q'') = Inr s'
          \<and> lastMsgOf s' = Some m'
          \<and> stage1 m' = Some [answer ''google/gemini-3-pro'' ''b'']
          \<and> stage1List s' = [answer ''google/gemini-3-pro'' ''b''])
   \<and> (\<exists>s' m'. run ([Stage1_response (answer ''openai/gpt-5.1'' ''a''),
                     Stage1_response (answer ''openai/gpt-5.1'' ''a''),
                     Stage2_response (failure ''x-ai/grok-4'')]
                    @ [Stage2_complete
                         [critique ''google/gemini-3-pro'' ''1. Response A'' [''Response A'']]
                         None])
                  (newTurn ''c1'' ''q'') = Inr s'
          \<and> lastMsgOf s' = Some m'
          \<and> stage2 m' =
                Some [critique ''google/gemini-3-pro'' ''1. Response A'' [''Response A'']]
          \<and> metadata m' = None)"
proof -
  let ?evs = "[Stage1_response (answer ''openai/gpt-5.1'' ''a''),
        Stage1_response (answer ''openai/gpt-5.1'' ''a''),
        Stage2_response (failure ''x-ai/grok-4'')]"
  have h1: "hasTurn (newTurn ''c1'' ''q'')"
    by (simp add: hasTurn_def lastMsgOf_def newTurn_def assistantMessage_def)
  have h2: "list_all isArrival ?evs"
    by simp
  from reducer_convergence[OF h1 h2, of "[answer ''google/gemini-3-pro'' ''b'']"]
  have a: "\<exists>s' m'. run (?evs @ [Stage1_complete [answer ''google/gemini-3-pro'' ''b'']])
                  (newTurn ''c1'' ''q'') = Inr s'
          \<and> lastMsgOf s' = Some m'
          \<and> stage1 m' = Some [answer ''google/gemini-3-pro'' ''b'']
          \<and> stage1List s' = [answer ''google/gemini-3-pro'' ''b'']"
    by blast
  from reducer_convergence[OF h1 h2,
      of "[critique ''google/gemini-3-pro'' ''1. Response A'' [''Response A'']]" None]
  have b: "\<exists>s' m'. run (?evs @ [Stage2_complete
                         [critique ''google/gemini-3-pro'' ''1. Response A'' [''Response A'']]
                         None])
                  (newTurn ''c1'' ''q'') = Inr s'
          \<and> lastMsgOf s' = Some m'
          \<and> stage2 m' =
                Some [critique ''google/gemini-3-pro'' ''1. Response A'' [''Response A'']]
          \<and> metadata m' = None"
    by blast
  from h1 h2 a b show ?thesis by blast
qed

subsection \<open>Duplicate arrival events\<close>

lemma stage1_start_Inr:
  "loading m = Some l \<Longrightarrow> \<exists>m'. stage1_start ms m = Inr m' \<and> stage1 m' = Some []"
  by (simp add: stage1_start_def setLoading_def)

lemma stage2_start_Inr:
  "loading m = Some l \<Longrightarrow> \<exists>m'. stage2_start ms md m = Inr m' \<and> stage2 m' = Some []"
  by (simp add: stage2_start_def setLoading_def mergeLabelToModel_def split: option.splits)

text \<open>
  Claim C2. Whatever the state of the turn, a sequence of arrival events (in particular
  two events for the same model) returns and leaves, in the list of either stage, at most
  one entry for a model, or as many as the list had before when it had more than one: an
  entry is appended only for a model that has none. A list with at most one entry for
  the model keeps at most one; and within a stage, from its start event on, the list
  never has more than one entry for a model, however often the arrival events of the
  model are repeated.
\<close>

theorem duplicate_safety:
  assumes "lastMsgOf s \<noteq> None" and "list_all isArrival evs"
  shows "(\<exists>s'. run evs s = Inr s'
          \<and> entriesFor k (stage1List s') \<le> max 1 (entriesFor k (stage1List s))
          \<and> entriesFor k (stage2List s') \<le> max 1 (entriesFor k (stage2List s))
          \<and> (entriesFor k (stage1List s) \<le> 1 \<longrightarrow> entriesFor k (stage1List s') \<le> 1)
          \<and> (entriesFor k (stage2List s) \<le> 1 \<longrightarrow> entriesFor k (stage2List s') \<le> 1))
       \<and> (hasTurn s \<longrightarrow>
            (\<exists>s'. run (Stage1_start ms # evs) s = Inr s' \<and> entriesFor k (stage1List s') \<le> 1)
          \<and> (\<exists>s'. run (Stage2_start ms md # evs) s = Inr s' \<and> entriesFor k (stage2List s') \<le> 1))"
proof (intro conjI impI)
  from assms(1) obtain m where "lastMsgOf s = Some m" by auto
  from arrivals_run[OF this assms(2), of k] obtain s' where
    s': "run evs s = Inr s'"
      "entriesFor k (stage1List s') \<le> max 1 (entriesFor k (stage1List s))"
      "entriesFor k (stage2List s') \<le> max 1 (entriesFor k (stage2List s))"
    by blast
  then show "\<exists>s'. run evs s = Inr s'
          \<and> entriesFor k (stage1List s') \<le> max 1 (entriesFor k (stage1List s))
          \<and> entriesFor k (stage2List s') \<le> max 1 (entriesFor k (stage2List s))
          \<and> (entriesFor k (stage1List s) \<le> 1 \<longrightarrow> entriesFor k (stage1List s') \<le> 1)
          \<and> (entriesFor k (stage2List s) \<le> 1 \<longrightarrow> entriesFor k (stage2List s') \<le> 1)"
    by auto
next
  assume "hasTurn s"
  from hasTurnD[OF this] obtain m l where m: "lastMsgOf s = Some m" "loading m = Some l"
    by blast
  from stage1_start_Inr[OF m(2), of ms] obtain m1 where
    m1: "stage1_start ms m = Inr m1" "stage1 m1 = Some []" by blast
  let ?s1 = "replaceLastMsg m1 s"
  have e: "onEvent (Stage1_start ms) s = Inr ?s1"
    using m(1) m1(1) by (simp add: setCurrentConversation_Inr[of s m _ m1])
  have l1: "lastMsgOf ?s1 = Some m1"
    using m(1) by (rule lastMsgOf_replaceLastMsg)
  have z: "entriesFor k (stage1List ?s1) = 0"
    by (simp add: stage1List_def l1 m1(2) orEmpty_simps entriesFor_def)
  from arrivals_run[OF l1 assms(2), of k] z obtain s' where
    "run evs ?s1 = Inr s'" "entriesFor k (stage1List s') \<le> 1"
    by auto
  with e show "\<exists>s'. run (Stage1_start ms # evs) s = Inr s' \<and> entriesFor k (stage1List s') \<le> 1"
    by simp
next
  assume "hasTurn s"
  from hasTurnD[OF this] obtain m l where m: "lastMsgOf s = Some m" "loading m = Some l"
    by blast
  from stage2_start_Inr[OF m(2), of ms md] obtain m2 where
    m2: "stage2_start ms md m = Inr m2" "stage2 m2 = Some []" by blast
  let ?s2 = "replaceLastMsg m2 s"
  have e: "onEvent (Stage2_start ms md) s = Inr ?s2"
    using m(1) m2(1) by (simp add: setCurrentConversation_Inr[of s m _ m2])
  have l2: "lastMsgOf ?s2 = Some m2"
    using m(1) by (rule lastMsgOf_replaceLastMsg)
  have z: "entriesFor k (stage2List ?s2) = 0"
    by (simp add: stage2List_def l2 m2(2) orEmpty_simps entriesFor_def)
  from arrivals_run[OF l2 assms(2), of k] z obtain s' where
    "run evs ?s2 = Inr s'" "entriesFor k (stage2List s') \<le> 1"
    by auto
  with e show "\<exists>s'. run (Stage2_start ms md # evs) s = Inr s' \<and> entriesFor k (stage2List s') \<le> 1"
    by simp
qed

theorem duplicate_safety_witness:
  "lastMsgOf (newTurn ''c1'' ''q'') \<noteq> None
   \<and> hasTurn (newTurn ''c1'' ''q'')
   \<and> list_all isArrival
       [Stage1_response (answer ''openai/gpt-5.1'' ''a''),
        Stage1_response (answer ''openai/gpt-5.1'' ''a'')]
   \<and> (\<exists>s'. run (Stage1_start (Some [''openai/gpt-5.1'', ''x-ai/grok-4''])
                 # [Stage1_response (answer ''openai/gpt-5.1'' ''a''),
                    Stage1_response (answer ''openai/gpt-5.1'' ''a'')])
               (newTurn ''c1'' ''q'') = Inr s'
          \<and> entriesFor ''openai/gpt-5.1'' (stage1List s') \<le> 1)"
proof -
  let ?s = "newTurn ''c1'' ''q''"
  let ?evs = "[Stage1_response (answer ''openai/gpt-5.1'' ''a''),
               Stage1_response (answer ''openai/gpt-5.1'' ''a'')]"
  have h1: "lastMsgOf ?s \<noteq> None"
    by (simp add: lastMsgOf_def newTurn_def)
  have h2: "list_all isArrival ?evs"
    by simp
  have h3: "hasTurn ?s"
    by (simp add: hasTurn_def lastMsgOf_def newTurn_def assistantMessage_def)
  from duplicate_safety[OF h1 h2, of "''openai/gpt-5.1''" "Some [''openai/gpt-5.1'', ''x-ai/grok-4'']"] h3
  have "\<exists>s'. run (Stage1_start (Some [''openai/gpt-5.1'', ''x-ai/grok-4'']) # ?evs) ?s = Inr s'
          \<and> entriesFor ''openai/gpt-5.1'' (stage1List s') \<le> 1"
    by blast
  with h1 h2 h3 show ?thesis by blast
qed

subsection \<open>Failed arrival events\<close>

text \<open>
  Claim C8. An arrival event with \<^verbatim>\<open>failed: true\<close>, of either stage, returns a state in
  which the model is removed from the pending list of the stage and nothing else has
  changed: the last message differs in that list only, so no entry is added to a stage
  list and the \<^verbatim>\<open>loading\<close> flags stand as they were (the stage is not aborted);
  \<^verbatim>\<open>isLoading\<close> is as before (the turn is not aborted), and the events that follow are
  processed from that state.
\<close>

theorem failed_arrival_handling:
  assumes "lastMsgOf s = Some m" and "failed d"
  shows "(\<exists>s' m'. onEvent (Stage1_response d) s = Inr s' \<and> lastMsgOf s' = Some m'
            \<and> s' = replaceLastMsg m' s
            \<and> m' = m\<lparr>stage1PendingModels := Some (filter (\<lambda>x. x \<noteq> model d) (pending1 s))\<rparr>
            \<and> pending1 s' = filter (\<lambda>x. x \<noteq> model d) (pending1 s)
            \<and> stage1List s' = stage1List s \<and> stage2List s' = stage2List s
            \<and> hasTurn s' = hasTurn s \<and> isLoading s' = isLoading s \<and> effects s' = effects s
            \<and> (\<forall>es. run (Stage1_response d # es) s = run es s'))
       \<and> (\<exists>s' m'. onEvent (Stage2_response d) s = Inr s' \<and> lastMsgOf s' = Some m'
            \<and> s' = replaceLastMsg m' s
            \<and> m' = m\<lparr>stage2PendingModels := Some (filter (\<lambda>x. x \<noteq> model d) (pending2 s))\<rparr>
            \<and> pending2 s' = filter (\<lambda>x. x \<noteq> model d) (pending2 s)
            \<and> stage1List s' = stage1List s \<and> stage2List s' = stage2List s
            \<and> hasTurn s' = hasTurn s \<and> isLoading s' = isLoading s \<and> effects s' = effects s
            \<and> (\<forall>es. run (Stage2_response d # es) s = run es s'))"
proof -
  let ?m1 = "m\<lparr>stage1PendingModels := Some (filter (\<lambda>x. x \<noteq> model d) (pending1 s))\<rparr>"
  let ?m2 = "m\<lparr>stage2PendingModels := Some (filter (\<lambda>x. x \<noteq> model d) (pending2 s))\<rparr>"
  have p: "pending1 s = orEmpty (stage1PendingModels m)"
      "pending2 s = orEmpty (stage2PendingModels m)"
    using assms(1) by (simp_all add: pending1_def pending2_def)
  have e1: "onEvent (Stage1_response d) s = Inr (replaceLastMsg ?m1 s)"
    using assms by (simp add: setCurrentConversation_Inr[of s m] stage1_response_failed p)
  have e2: "onEvent (Stage2_response d) s = Inr (replaceLastMsg ?m2 s)"
    using assms by (simp add: setCurrentConversation_Inr[of s m] stage2_response_failed p)
  have l1: "lastMsgOf (replaceLastMsg ?m1 s) = Some ?m1"
    and l2: "lastMsgOf (replaceLastMsg ?m2 s) = Some ?m2"
    using assms(1) by (simp_all add: lastMsgOf_replaceLastMsg)
  have f1: "pending1 (replaceLastMsg ?m1 s) = filter (\<lambda>x. x \<noteq> model d) (pending1 s)"
      "stage1List (replaceLastMsg ?m1 s) = stage1List s"
      "stage2List (replaceLastMsg ?m1 s) = stage2List s"
      "hasTurn (replaceLastMsg ?m1 s) = hasTurn s"
    using assms(1) l1
    by (simp_all add: pending1_def stage1List_def stage2List_def hasTurn_def orEmpty_simps)
  have f2: "pending2 (replaceLastMsg ?m2 s) = filter (\<lambda>x. x \<noteq> model d) (pending2 s)"
      "stage1List (replaceLastMsg ?m2 s) = stage1List s"
      "stage2List (replaceLastMsg ?m2 s) = stage2List s"
      "hasTurn (replaceLastMsg ?m2 s) = hasTurn s"
    using assms(1) l2
    by (simp_all add: pending2_def stage1List_def stage2List_def hasTurn_def orEmpty_simps)
  have r1: "\<forall>es. run (Stage1_response d # es) s = run es (replaceLastMsg ?m1 s)"
    using e1 by simp
  have r2: "\<forall>es. run (Stage2_response d # es) s = run es (replaceLastMsg ?m2 s)"
    using e2 by simp
  show ?thesis
    using e1 e2 l1 l2 f1 f2 r1 r2 by (simp add: replaceLastMsg_frame)
qed

theorem failed_arrival_handling_witness:
  "lastMsgOf (stage1Running ''c1'' ''q'' [''openai/gpt-5.1'', ''x-ai/grok-4''])
     = Some (assistantMessage\<lparr>stage1 := Some [],
               loading := Some \<lparr>loading_stage1 = True, loading_stage2 = False,
                                loading_stage3 = False\<rparr>,
               stage1PendingModels := Some [''openai/gpt-5.1'', ''x-ai/grok-4'']\<rparr>)
   \<and> failed (failure ''x-ai/grok-4'')
   \<and> (\<exists>s'. onEvent (Stage1_response (failure ''x-ai/grok-4''))
               (stage1Running ''c1'' ''q'' [''openai/gpt-5.1'', ''x-ai/grok-4'']) = Inr s'
          \<and> pending1 s' = [''openai/gpt-5.1'']
          \<and> stage1List s' = []
          \<and> hasTurn s' \<and> isLoading s')"
proof -
  let ?s = "stage1Running ''c1'' ''q'' [''openai/gpt-5.1'', ''x-ai/grok-4'']"
  let ?m = "assistantMessage\<lparr>stage1 := Some [],
               loading := Some \<lparr>loading_stage1 = True, loading_stage2 = False,
                                loading_stage3 = False\<rparr>,
               stage1PendingModels := Some [''openai/gpt-5.1'', ''x-ai/grok-4'']\<rparr>"
  have h1: "lastMsgOf ?s = Some ?m"
    by (simp add: lastMsgOf_def stage1Running_def)
  have h2: "failed (failure ''x-ai/grok-4'')"
    by (simp add: failure_def)
  have v: "pending1 ?s = [''openai/gpt-5.1'', ''x-ai/grok-4'']" "stage1List ?s = []"
      "hasTurn ?s" "isLoading ?s" "model (failure ''x-ai/grok-4'') = ''x-ai/grok-4''"
    by (simp_all add: pending1_def stage1List_def hasTurn_def h1 orEmpty_simps
        assistantMessage_def failure_def, simp add: stage1Running_def)
  from failed_arrival_handling[OF h1 h2] obtain s' where
    "onEvent (Stage1_response (failure ''x-ai/grok-4'')) ?s = Inr s'"
    "pending1 s' = filter (\<lambda>x. x \<noteq> model (failure ''x-ai/grok-4'')) (pending1 ?s)"
    "stage1List s' = stage1List ?s" "hasTurn s' = hasTurn ?s" "isLoading s' = isLoading ?s"
    by blast
  with h1 h2 v show ?thesis by simp
qed

subsection \<open>Events of another turn\<close>

lemma setCurrentConversation_butlast:
  assumes "setCurrentConversation f s = Inr s'" "currentConversation s = Some c"
  shows "\<exists>c'. currentConversation s' = Some c' \<and> conv_id c' = conv_id c
      \<and> length (messages c') = length (messages c)
      \<and> butlast (messages c') = butlast (messages c)"
  using assms
  by (auto simp: setCurrentConversation_def updateLastMsg_def split: sum.splits if_splits)

text \<open>
  The callback has no notion of the turn an event belongs to. When the user has selected
  another conversation while the stream is live, an answer and a ranking that arrive for
  the abandoned turn are stored in the finished turn of the conversation now shown, behind
  the results it had.
\<close>

theorem superseded_turn_counterexample:
  "stage1List selectedMidStream = [answer ''google/gemini-3-pro'' ''stored answer'']
   \<and> map_sum id stage1List
        (onEvent (Stage1_response (answer ''openai/gpt-5.1'' ''answer of the abandoned turn''))
           selectedMidStream)
      = Inr [answer ''google/gemini-3-pro'' ''stored answer'',
             answer ''openai/gpt-5.1'' ''answer of the abandoned turn'']
   \<and> stage2List selectedMidStream
      = [critique ''google/gemini-3-pro'' ''1. Response A'' [''Response A'']]
   \<and> map_sum id stage2List
        (onEvent (Stage2_response
                    (critique ''openai/gpt-5.1'' ''1. Response B'' [''Response B'']))
           selectedMidStream)
      = Inr [critique ''google/gemini-3-pro'' ''1. Response A'' [''Response A''],
             critique ''openai/gpt-5.1'' ''1. Response B'' [''Response B'']]"
  by (simp add: selectedMidStream_def storedAssistantMessage_def stage1List_def
      stage2List_def lastMsgOf_def setCurrentConversation_def updateLastMsg_def
      stage1_response_def stage2_response_def orEmpty_simps Let_def answer_def critique_def)

text \<open>
  Claim C3, amended. An event that is processed changes no message of the current
  conversation but the last one, whichever turn the event comes from: the conversation
  keeps its identifier and its length, and every message before the last is left as it
  was. (The last message of the conversation that is current when the event is processed
  is the one the event is applied to, also when the event belongs to a turn the user has
  abandoned.)
\<close>

theorem events_reach_last_message_only:
  assumes "currentConversation s = Some c" and "onEvent e s = Inr s'"
  shows "\<exists>c'. currentConversation s' = Some c' \<and> conv_id c' = conv_id c
      \<and> length (messages c') = length (messages c)
      \<and> butlast (messages c') = butlast (messages c)"
proof (cases e)
  case Title_complete
  with assms show ?thesis by auto
next
  case Complete
  with assms show ?thesis by auto
next
  case (Error x)
  with assms show ?thesis by auto
next
  case (Unknown x)
  with assms show ?thesis by auto
qed (use assms setCurrentConversation_butlast[of _ s s' c] in auto)

theorem events_reach_last_message_only_witness:
  "\<exists>c s'. currentConversation selectedMidStream = Some c
     \<and> onEvent (Stage1_response (answer ''openai/gpt-5.1'' ''answer of the abandoned turn''))
         selectedMidStream = Inr s'
     \<and> (\<exists>c'. currentConversation s' = Some c' \<and> conv_id c' = conv_id c
           \<and> length (messages c') = length (messages c)
           \<and> butlast (messages c') = butlast (messages c))"
proof -
  let ?e = "Stage1_response (answer ''openai/gpt-5.1'' ''answer of the abandoned turn'')"
  obtain c where c: "currentConversation selectedMidStream = Some c"
    by (simp add: selectedMidStream_def)
  have "lastMsgOf selectedMidStream = Some storedAssistantMessage"
    by (simp add: selectedMidStream_def lastMsgOf_def)
  from arrival_step[OF this, of ?e] obtain s' where s': "onEvent ?e selectedMidStream = Inr s'"
    by auto
  from events_reach_last_message_only[OF c s'] c s' show ?thesis by blast
qed

subsection \<open>The pending lists\<close>

lemma onEvent_pending:
  assumes "lastMsgOf s = Some m" "loading m = Some l"
  shows "\<exists>s' m' l'. onEvent e s = Inr s' \<and> lastMsgOf s' = Some m' \<and> loading m' = Some l'
     \<and> orEmpty (stage1PendingModels m') =
         (case e of Stage1_start ms \<Rightarrow> orEmpty ms
          | Stage1_response d \<Rightarrow> filter (\<lambda>x. x \<noteq> model d) (orEmpty (stage1PendingModels m))
          | Stage1_complete dat \<Rightarrow> []
          | _ \<Rightarrow> orEmpty (stage1PendingModels m))
     \<and> orEmpty (stage2PendingModels m') =
         (case e of Stage2_start ms md \<Rightarrow> orEmpty ms
          | Stage2_response d \<Rightarrow> filter (\<lambda>x. x \<noteq> model d) (orEmpty (stage2PendingModels m))
          | Stage2_complete dat md \<Rightarrow> []
          | _ \<Rightarrow> orEmpty (stage2PendingModels m))"
proof (cases e)
  case (Stage1_start ms)
  have "stage1_start ms m =
      Inr (m\<lparr>loading := Some (l\<lparr>loading_stage1 := True\<rparr>), stage1 := Some [],
             stage1PendingModels := Some (orEmpty ms)\<rparr>)"
    using assms(2) by (simp add: stage1_start_def setLoading_def)
  then show ?thesis using assms Stage1_start
    by (simp add: setCurrentConversation_Inr[of s m] lastMsgOf_replaceLastMsg orEmpty_simps)
next
  case (Stage1_response d)
  from stage1_response_Inr[of d m] obtain m' where
     "stage1_response d m = Inr m'" "loading m' = loading m"
     "stage2PendingModels m' = stage2PendingModels m"
     "stage1PendingModels m' =
        Some (filter (\<lambda>x. x \<noteq> model d) (orEmpty (stage1PendingModels m)))"
    by blast
  then show ?thesis using assms Stage1_response
    by (simp add: setCurrentConversation_Inr[of s m _ m'] lastMsgOf_replaceLastMsg
        orEmpty_simps)
next
  case (Stage1_complete dat)
  have "stage1_complete dat m =
      Inr (m\<lparr>stage1 := Some dat, loading := Some (l\<lparr>loading_stage1 := False\<rparr>),
             stage1PendingModels := Some []\<rparr>)"
    using assms(2) by (simp add: stage1_complete_def setLoading_def)
  then show ?thesis using assms Stage1_complete
    by (simp add: setCurrentConversation_Inr[of s m] lastMsgOf_replaceLastMsg orEmpty_simps)
next
  case (Stage2_start ms md)
  have "\<exists>m'. stage2_start ms md m = Inr m' \<and> loading m' = Some (l\<lparr>loading_stage2 := True\<rparr>)
      \<and> stage1PendingModels m' = stage1PendingModels m
      \<and> stage2PendingModels m' = Some (orEmpty ms)"
    using assms(2)
    by (simp add: stage2_start_def setLoading_def mergeLabelToModel_def split: option.splits)
  then obtain m' where
      "stage2_start ms md m = Inr m'" "loading m' = Some (l\<lparr>loading_stage2 := True\<rparr>)"
      "stage1PendingModels m' = stage1PendingModels m"
      "stage2PendingModels m' = Some (orEmpty ms)"
    by blast
  then show ?thesis using assms Stage2_start
    by (simp add: setCurrentConversation_Inr[of s m _ m'] lastMsgOf_replaceLastMsg
        orEmpty_simps)
next
  case (Stage2_response d)
  from stage2_response_Inr[of d m] obtain m' where
     "stage2_response d m = Inr m'" "loading m' = loading m"
     "stage1PendingModels m' = stage1PendingModels m"
     "stage2PendingModels m' =
        Some (filter (\<lambda>x. x \<noteq> model d) (orEmpty (stage2PendingModels m)))"
    by blast
  then show ?thesis using assms Stage2_response
    by (simp add: setCurrentConversation_Inr[of s m _ m'] lastMsgOf_replaceLastMsg
        orEmpty_simps)
next
  case (Stage2_complete dat md)
  have "stage2_complete dat md m =
      Inr (m\<lparr>stage2 := Some dat, metadata := md,
             loading := Some (l\<lparr>loading_stage2 := False\<rparr>),
             stage2PendingModels := Some []\<rparr>)"
    using assms(2) by (simp add: stage2_complete_def setLoading_def)
  then show ?thesis using assms Stage2_complete
    by (simp add: setCurrentConversation_Inr[of s m] lastMsgOf_replaceLastMsg orEmpty_simps)
next
  case Stage3_start
  have "stage3_start m = Inr (m\<lparr>loading := Some (l\<lparr>loading_stage3 := True\<rparr>)\<rparr>)"
    using assms(2) by (simp add: stage3_start_def setLoading_def)
  then show ?thesis using assms Stage3_start
    by (simp add: setCurrentConversation_Inr[of s m] lastMsgOf_replaceLastMsg orEmpty_simps)
next
  case (Stage3_complete dat)
  have "stage3_complete dat m =
      Inr (m\<lparr>stage3 := Some dat, loading := Some (l\<lparr>loading_stage3 := False\<rparr>)\<rparr>)"
    using assms(2) by (simp add: stage3_complete_def setLoading_def)
  then show ?thesis using assms Stage3_complete
    by (simp add: setCurrentConversation_Inr[of s m] lastMsgOf_replaceLastMsg orEmpty_simps)
next
  case Title_complete
  then show ?thesis using assms by (simp add: lastMsgOf_def)
next
  case Complete
  then show ?thesis using assms by (simp add: lastMsgOf_def)
next
  case (Error x)
  then show ?thesis using assms by (simp add: lastMsgOf_def)
next
  case (Unknown x)
  then show ?thesis using assms by (simp add: lastMsgOf_def)
qed

text \<open>
  The pending list of stage 1 is empty although \<^verbatim>\<open>stage1_complete\<close> has not been
  processed and the stage is still loading: the only model of the start event has
  answered.
\<close>

theorem pending_set_counterexample:
  "map_sum id pending1
     (run [Stage1_start (Some [''openai/gpt-5.1'']),
           Stage1_response (answer ''openai/gpt-5.1'' ''hello'')]
        (newTurn ''c1'' ''q'')) = Inr []
   \<and> map_sum id (\<lambda>s. map_option loading (lastMsgOf s))
     (run [Stage1_start (Some [''openai/gpt-5.1'']),
           Stage1_response (answer ''openai/gpt-5.1'' ''hello'')]
        (newTurn ''c1'' ''q''))
      = Inr (Some (Some \<lparr>loading_stage1 = True, loading_stage2 = False,
                          loading_stage3 = False\<rparr>))"
  by (simp add: newTurn_def pending1_def lastMsgOf_def setCurrentConversation_def
      updateLastMsg_def stage1_start_def stage1_response_def setLoading_def
      assistantMessage_def orEmpty_simps Let_def answer_def)

text \<open>
  Claim C4, amended. In a turn every event returns. The start event of a stage sets the
  pending list of the stage to the models it delivers (to the empty list when it delivers
  none); an arrival event, failed or not, removes exactly its model; the completion event
  empties the list; and no event but the start event of the stage adds a model to the
  list or makes it longer. So the list is empty whenever the completion event has been
  processed; it can be empty before.
\<close>

theorem pending_set:
  assumes "hasTurn s"
  shows "\<exists>s'. onEvent e s = Inr s' \<and> hasTurn s'
     \<and> (\<forall>ms. e = Stage1_start ms \<longrightarrow> pending1 s' = orEmpty ms)
     \<and> (\<forall>d. e = Stage1_response d \<longrightarrow>
           pending1 s' = filter (\<lambda>x. x \<noteq> model d) (pending1 s))
     \<and> (\<forall>dat. e = Stage1_complete dat \<longrightarrow> pending1 s' = [])
     \<and> ((\<forall>ms. e \<noteq> Stage1_start ms) \<longrightarrow>
           set (pending1 s') \<subseteq> set (pending1 s) \<and> length (pending1 s') \<le> length (pending1 s))
     \<and> (\<forall>ms md. e = Stage2_start ms md \<longrightarrow> pending2 s' = orEmpty ms)
     \<and> (\<forall>d. e = Stage2_response d \<longrightarrow>
           pending2 s' = filter (\<lambda>x. x \<noteq> model d) (pending2 s))
     \<and> (\<forall>dat md. e = Stage2_complete dat md \<longrightarrow> pending2 s' = [])
     \<and> ((\<forall>ms md. e \<noteq> Stage2_start ms md) \<longrightarrow>
           set (pending2 s') \<subseteq> set (pending2 s) \<and> length (pending2 s') \<le> length (pending2 s))"
proof -
  from hasTurnD[OF assms] obtain m l where m: "lastMsgOf s = Some m" "loading m = Some l"
    by blast
  from onEvent_pending[OF m, of e] obtain s' m' l' where
    s': "onEvent e s = Inr s'" "lastMsgOf s' = Some m'" "loading m' = Some l'"
     "orEmpty (stage1PendingModels m') =
         (case e of Stage1_start ms \<Rightarrow> orEmpty ms
          | Stage1_response d \<Rightarrow> filter (\<lambda>x. x \<noteq> model d) (orEmpty (stage1PendingModels m))
          | Stage1_complete dat \<Rightarrow> []
          | _ \<Rightarrow> orEmpty (stage1PendingModels m))"
     "orEmpty (stage2PendingModels m') =
         (case e of Stage2_start ms md \<Rightarrow> orEmpty ms
          | Stage2_response d \<Rightarrow> filter (\<lambda>x. x \<noteq> model d) (orEmpty (stage2PendingModels m))
          | Stage2_complete dat md \<Rightarrow> []
          | _ \<Rightarrow> orEmpty (stage2PendingModels m))"
    by blast
  have p: "pending1 s = orEmpty (stage1PendingModels m)"
      "pending2 s = orEmpty (stage2PendingModels m)"
      "pending1 s' = orEmpty (stage1PendingModels m')"
      "pending2 s' = orEmpty (stage2PendingModels m')"
      "hasTurn s'"
    using m s'(2,3) by (simp_all add: pending1_def pending2_def hasTurn_def)
  have "onEvent e s = Inr s' \<and> hasTurn s'
     \<and> (\<forall>ms. e = Stage1_start ms \<longrightarrow> pending1 s' = orEmpty ms)
     \<and> (\<forall>d. e = Stage1_response d \<longrightarrow>
           pending1 s' = filter (\<lambda>x. x \<noteq> model d) (pending1 s))
     \<and> (\<forall>dat. e = Stage1_complete dat \<longrightarrow> pending1 s' = [])
     \<and> ((\<forall>ms. e \<noteq> Stage1_start ms) \<longrightarrow>
           set (pending1 s') \<subseteq> set (pending1 s) \<and> length (pending1 s') \<le> length (pending1 s))
     \<and> (\<forall>ms md. e = Stage2_start ms md \<longrightarrow> pending2 s' = orEmpty ms)
     \<and> (\<forall>d. e = Stage2_response d \<longrightarrow>
           pending2 s' = filter (\<lambda>x. x \<noteq> model d) (pending2 s))
     \<and> (\<forall>dat md. e = Stage2_complete dat md \<longrightarrow> pending2 s' = [])
     \<and> ((\<forall>ms md. e \<noteq> Stage2_start ms md) \<longrightarrow>
           set (pending2 s') \<subseteq> set (pending2 s) \<and> length (pending2 s') \<le> length (pending2 s))"
    unfolding p(1-4) s'(4,5) using s'(1) p(5)
    by (cases e) auto
  then show ?thesis by blast
qed

theorem pending_set_witness:
  "hasTurn (stage1Running ''c1'' ''q'' [''openai/gpt-5.1'', ''x-ai/grok-4''])
   \<and> (\<exists>s'. onEvent (Stage1_response (failure ''x-ai/grok-4''))
               (stage1Running ''c1'' ''q'' [''openai/gpt-5.1'', ''x-ai/grok-4'']) = Inr s'
          \<and> pending1 s' = [''openai/gpt-5.1''])
   \<and> (\<exists>s'. onEvent (Stage1_complete [answer ''openai/gpt-5.1'' ''hello''])
               (stage1Running ''c1'' ''q'' [''openai/gpt-5.1'', ''x-ai/grok-4'']) = Inr s'
          \<and> pending1 s' = [])"
proof -
  let ?s = "stage1Running ''c1'' ''q'' [''openai/gpt-5.1'', ''x-ai/grok-4'']"
  have h: "hasTurn ?s"
    by (simp add: hasTurn_def lastMsgOf_def stage1Running_def)
  have v: "filter (\<lambda>x. x \<noteq> model (failure ''x-ai/grok-4'')) (pending1 ?s) = [''openai/gpt-5.1'']"
    by (simp add: pending1_def lastMsgOf_def stage1Running_def orEmpty_simps failure_def)
  from pending_set[OF h, of "Stage1_response (failure ''x-ai/grok-4'')"] v
  have a: "\<exists>s'. onEvent (Stage1_response (failure ''x-ai/grok-4'')) ?s = Inr s'
          \<and> pending1 s' = [''openai/gpt-5.1'']"
    by auto
  from pending_set[OF h, of "Stage1_complete [answer ''openai/gpt-5.1'' ''hello'']"]
  have b: "\<exists>s'. onEvent (Stage1_complete [answer ''openai/gpt-5.1'' ''hello'']) ?s = Inr s'
          \<and> pending1 s' = []"
    by auto
  from h a b show ?thesis by blast
qed

subsection \<open>The error event\<close>

text \<open>
  After \<^verbatim>\<open>error\<close> in the middle of stage 1 the message of the turn is what it was, with
  stage 1 still flagged as loading and a model pending; and the conversation and
  \<^verbatim>\<open>isLoading\<close> are the same as after \<^verbatim>\<open>complete\<close>. Nothing in the state says that the
  turn has failed.
\<close>

theorem error_event_counterexample:
  "map_sum id lastMsgOf
      (onEvent (Error ''All models failed to respond'')
         (stage1Running ''c1'' ''q'' [''openai/gpt-5.1'', ''x-ai/grok-4'']))
     = Inr (lastMsgOf (stage1Running ''c1'' ''q'' [''openai/gpt-5.1'', ''x-ai/grok-4'']))
   \<and> map_option loading
        (lastMsgOf (stage1Running ''c1'' ''q'' [''openai/gpt-5.1'', ''x-ai/grok-4'']))
     = Some (Some \<lparr>loading_stage1 = True, loading_stage2 = False, loading_stage3 = False\<rparr>)
   \<and> map_sum id (\<lambda>s. (currentConversation s, isLoading s))
        (onEvent (Error ''All models failed to respond'')
           (stage1Running ''c1'' ''q'' [''openai/gpt-5.1'', ''x-ai/grok-4'']))
     = map_sum id (\<lambda>s. (currentConversation s, isLoading s))
        (onEvent Complete (stage1Running ''c1'' ''q'' [''openai/gpt-5.1'', ''x-ai/grok-4'']))"
  by (simp add: lastMsgOf_def stage1Running_def)

text \<open>
  Claim C7, amended. Processing \<^verbatim>\<open>error\<close> returns and leaves the conversation as it is:
  every message, so the stage lists, the final answer, the metadata, the pending lists
  and the \<^verbatim>\<open>loading\<close> flags of the turn. It clears \<^verbatim>\<open>isLoading\<close> and writes the message to
  the console; it records no failure in the turn.
\<close>

theorem error_event_frame:
  "\<exists>s'. onEvent (Error msg) s = Inr s'
      \<and> currentConversation s' = currentConversation s
      \<and> lastMsgOf s' = lastMsgOf s
      \<and> stage1List s' = stage1List s \<and> stage2List s' = stage2List s
      \<and> pending1 s' = pending1 s \<and> pending2 s' = pending2 s
      \<and> hasTurn s' = hasTurn s
      \<and> isLoading s' = False
      \<and> effects s' = effects s @ [ConsoleError msg]"
  by (simp add: lastMsgOf_def stage1List_def stage2List_def pending1_def pending2_def
      hasTurn_def)

section \<open>Properties of the attachments\<close>

lemma processFile_Inr:
  "processFile f = Inr u \<Longrightarrow>
     file_type f \<in> set ALLOWED_TYPES \<and> file_size f \<le> MAX_FILE_SIZE \<and> file_dataUrl f = Some u"
  by (auto simp: processFile_def split: if_splits option.splits)

lemma processFile_rejects:
  "file_type f \<notin> set ALLOWED_TYPES \<Longrightarrow> processFile f = Inl (InvalidFileType (file_type f))"
  "file_type f \<in> set ALLOWED_TYPES \<Longrightarrow> file_size f > MAX_FILE_SIZE \<Longrightarrow>
     processFile f = Inl (FileTooLarge (file_size f))"
  by (simp_all add: processFile_def)

text \<open>The loop stops at \<open>MAX_IMAGES\<close>, counted with the list of its render.\<close>

lemma addImagesLoop_bound:
  "length images + length newImages \<le> MAX_IMAGES \<Longrightarrow>
     length images + length (fst (addImagesLoop images files newImages alerts)) \<le> MAX_IMAGES"
proof (induction files arbitrary: newImages alerts)
  case Nil
  then show ?case by simp
next
  case (Cons f files)
  show ?case
  proof (cases "length images + length newImages \<ge> MAX_IMAGES")
    case True
    with Cons.prems show ?thesis by simp
  next
    case False
    then have lt: "length images + length newImages < MAX_IMAGES" by simp
    show ?thesis
    proof (cases "processFile f")
      case (Inl err)
      with False Cons.IH[OF Cons.prems] show ?thesis by simp
    next
      case (Inr u)
      have "length images + length (newImages @ [u]) \<le> MAX_IMAGES" using lt by simp
      from Cons.IH[OF this] Inr False show ?thesis by simp
    qed
  qed
qed

text \<open>Every image the loop adds is the data URL of a file that \<open>processFile\<close> accepts.\<close>

lemma addImagesLoop_valid:
  "set (fst (addImagesLoop images files newImages alerts))
     \<subseteq> set newImages \<union> {u. \<exists>f \<in> set files. processFile f = Inr u}"
proof (induction files arbitrary: newImages alerts)
  case Nil
  then show ?case by simp
next
  case (Cons f files)
  show ?case
    using Cons.IH[of "newImages @ [projr (processFile f)]" alerts]
      Cons.IH[of newImages "alerts @ [FileRejected (projl (processFile f))]"]
    by (cases "processFile f") (auto split: if_splits)
qed

text \<open>
  When the updater runs on the list the loop counted with (no other call has committed
  in between), the form never holds more than \<open>MAX_IMAGES\<close> images.
\<close>

lemma addImages_sequential_bound:
  assumes "length images \<le> MAX_IMAGES"
  shows "length (fst (addImages images files images)) \<le> MAX_IMAGES"
proof -
  obtain new alerts where l: "addImagesLoop images files [] [] = (new, alerts)"
    by (cases "addImagesLoop images files [] []")
  from addImagesLoop_bound[of images "[]" files "[]"] assms l
  have "length images + length new \<le> MAX_IMAGES" by simp
  with assms l show ?thesis by (simp add: addImages_def)
qed

text \<open>
  Claim C9 fails on the code. Two calls of \<^verbatim>\<open>addImages\<close> made from the same render of an
  empty form (files chosen in the dialog, then images pasted while the first files are
  still being read) both count with the empty list. Each accepts four images, the second
  updater appends to the four of the first, and \<^verbatim>\<open>handleSubmit\<close> sends a message with
  eight images.
\<close>

theorem overlapping_addImages:
  "addImages [] [png ''data:1'', png ''data:2'', png ''data:3'', png ''data:4''] []
     = ([''data:1'', ''data:2'', ''data:3'', ''data:4''], [])
   \<and> addImages [] [png ''data:5'', png ''data:6'', png ''data:7'', png ''data:8'']
        [''data:1'', ''data:2'', ''data:3'', ''data:4'']
     = ([''data:1'', ''data:2'', ''data:3'', ''data:4'',
         ''data:5'', ''data:6'', ''data:7'', ''data:8''], [])
   \<and> handleSubmit False (codeUnits ''q'')
        [''data:1'', ''data:2'', ''data:3'', ''data:4'',
         ''data:5'', ''data:6'', ''data:7'', ''data:8'']
     = (Some (codeUnits ''q'', [''data:1'', ''data:2'', ''data:3'', ''data:4'',
                      ''data:5'', ''data:6'', ''data:7'', ''data:8'']), [], [])
   \<and> MAX_IMAGES < length [''data:1'', ''data:2'', ''data:3'', ''data:4'',
                           ''data:5'', ''data:6'', ''data:7'', ''data:8'']"
  by (simp add: addImages_def processFile_def png_def ALLOWED_TYPES_def MAX_FILE_SIZE_def
      MAX_IMAGES_def handleSubmit_def nonBlank_def codeUnits_def whiteSpace_def)

section \<open>Properties of the council configuration\<close>

lemma first_filter_mem:
  "filter P xs \<noteq> [] \<Longrightarrow> \<exists>x. first (filter P xs) = Some x \<and> x \<in> set (filter P xs)"
  by (cases "filter P xs") (auto simp: first_def)

lemma distinct_two_other:
  assumes "distinct xs" "length xs > 1"
  shows "filter (\<lambda>x. x \<noteq> m) xs \<noteq> []"
proof -
  from assms obtain a b ys where xs: "xs = a # b # ys"
    by (cases xs; cases "tl xs") auto
  with assms(1) have "a \<noteq> b" by simp
  then have "a \<noteq> m \<or> b \<noteq> m" by auto
  then show ?thesis using xs by (auto simp: filter_empty_conv)
qed

text \<open>
  The first component takes the new chairman from the list after the removal: with a
  council of distinct models the chairman stays a member.
\<close>

lemma handleRemoveModel_keeps_chairman:
  assumes "distinct (council_models (settings_config st))"
    and "chairmanInCouncil st" and "length (council_models (settings_config st)) > 1"
  shows "chairmanInCouncil (handleRemoveModel m st)"
proof -
  let ?cfg = "settings_config st"
  from assms(2) obtain c where
    c: "chairman_model ?cfg = Some c" "c \<in> set (council_models ?cfg)"
    by (auto simp: chairmanInCouncil_def split: option.splits)
  show ?thesis
  proof (cases "c = m")
    case True
    from distinct_two_other[OF assms(1,3), of m]
    obtain x where "first (filter (\<lambda>x. x \<noteq> m) (council_models ?cfg)) = Some x"
       "x \<in> set (filter (\<lambda>x. x \<noteq> m) (council_models ?cfg))"
      using first_filter_mem by blast
    with True c assms(3) show ?thesis
      by (simp add: handleRemoveModel_def chairmanInCouncil_def Let_def)
  next
    case False
    with c assms(3) show ?thesis
      by (simp add: handleRemoveModel_def chairmanInCouncil_def Let_def)
  qed
qed

text \<open>Both components refuse to remove the last model.\<close>

lemma handleRemoveModel_refused:
  assumes "length (council_models (settings_config st)) \<le> 1"
  shows "handleRemoveModel m st =
           st\<lparr>settings_error := Some ''At least one council model is required''\<rparr>"
    and "handleRemoveModel2 m st =
           st\<lparr>settings_error := Some ''At least one council model is required''\<rparr>"
  using assms by (simp_all add: handleRemoveModel_def handleRemoveModel2_def Let_def)

text \<open>
  Claim C10 fails on the second component. With the council
  \<^verbatim>\<open>['openai/gpt-5.1', 'google/gemini-3-pro']\<close> and the chairman \<^verbatim>\<open>'openai/gpt-5.1'\<close>,
  removing the chairman leaves it chairman of a council it is no longer in: the new
  chairman is \<^verbatim>\<open>config.council_models[0]\<close>, the model that is removed. The first
  component makes \<^verbatim>\<open>'google/gemini-3-pro'\<close> the chairman.
\<close>

theorem remove_chairman_second_component:
  "chairmanInCouncil
     \<lparr>settings_config = \<lparr>council_models = [''openai/gpt-5.1'', ''google/gemini-3-pro''],
                          chairman_model = Some ''openai/gpt-5.1''\<rparr>,
      settings_error = None\<rparr>
   \<and> handleRemoveModel2 ''openai/gpt-5.1''
       \<lparr>settings_config = \<lparr>council_models = [''openai/gpt-5.1'', ''google/gemini-3-pro''],
                            chairman_model = Some ''openai/gpt-5.1''\<rparr>,
        settings_error = None\<rparr>
     = \<lparr>settings_config = \<lparr>council_models = [''google/gemini-3-pro''],
                            chairman_model = Some ''openai/gpt-5.1''\<rparr>,
        settings_error = None\<rparr>
   \<and> \<not> chairmanInCouncil
        (handleRemoveModel2 ''openai/gpt-5.1''
           \<lparr>settings_config = \<lparr>council_models = [''openai/gpt-5.1'', ''google/gemini-3-pro''],
                                chairman_model = Some ''openai/gpt-5.1''\<rparr>,
            settings_error = None\<rparr>)
   \<and> handleRemoveModel ''openai/gpt-5.1''
       \<lparr>settings_config = \<lparr>council_models = [''openai/gpt-5.1'', ''google/gemini-3-pro''],
                            chairman_model = Some ''openai/gpt-5.1''\<rparr>,
        settings_error = None\<rparr>
     = \<lparr>settings_config = \<lparr>council_models = [''google/gemini-3-pro''],
                            chairman_model = Some ''google/gemini-3-pro''\<rparr>,
        settings_error = None\<rparr>"
  by (simp add: handleRemoveModel2_def handleRemoveModel_def chairmanInCouncil_def first_def
      Let_def)

section \<open>Properties of de-anonymisation\<close>

subsection \<open>Occurrences and one replacement\<close>

lemma sublist_split_at:
  assumes "c \<notin> set l" "sublist l (a @ c # b)"
  shows "sublist l a \<or> sublist l b"
proof -
  from assms(2) consider "sublist l a" | "sublist l (c # b)"
    | l1 l2 where "l = l1 @ l2" "suffix l1 a" "prefix l2 (c # b)"
    unfolding sublist_append by blast
  then show ?thesis
  proof cases
    case 1
    then show ?thesis by simp
  next
    case 2
    then have "prefix l (c # b) \<or> sublist l b" by (simp add: sublist_Cons_right)
    then show ?thesis
    proof
      assume "prefix l (c # b)"
      with assms(1) have "l = []" by (cases l) auto
      then show ?thesis by simp
    qed simp
  next
    case 3
    from 3(3) assms(1) 3(1) have "l2 = []" by (cases l2) auto
    with 3 show ?thesis by auto
  qed
qed

lemma replaceGlobal_unchanged:
  "\<not> sublist pat t \<Longrightarrow> replaceGlobal pat rep t = t"
proof (induction t)
  case Nil
  then show ?case by (cases pat) auto
next
  case (Cons c cs)
  from Cons.prems have "pat \<noteq> []" by auto
  moreover from Cons.prems have "\<not> prefix pat (c # cs)" "\<not> sublist pat cs"
    by (auto simp: sublist_Cons_right)
  ultimately show ?case using Cons.IH by simp
qed

lemma prefix_replaceGlobal:
  assumes "pat \<noteq> []"
  shows "c \<notin> set x \<Longrightarrow> prefix x (replaceGlobal pat (c # rep) t) \<Longrightarrow> prefix x t"
proof (induction t arbitrary: x)
  case Nil
  with assms show ?case by simp
next
  case (Cons d ds)
  show ?case
  proof (cases "prefix pat (d # ds)")
    case True
    with assms Cons.prems(2) have "prefix x (c # rep @ replaceGlobal pat (c # rep) (drop (length pat) (d # ds)))"
      by simp
    with Cons.prems(1) have "x = []" by (cases x) auto
    then show ?thesis by simp
  next
    case False
    with assms Cons.prems(2) have p: "prefix x (d # replaceGlobal pat (c # rep) ds)"
      by simp
    show ?thesis
    proof (cases x)
      case Nil
      then show ?thesis by simp
    next
      case (Cons y ys)
      with p have "y = d" "prefix ys (replaceGlobal pat (c # rep) ds)" by simp_all
      moreover from Cons Cons.prems(1) have "c \<notin> set ys" by simp
      ultimately have "prefix ys ds" using Cons.IH by blast
      with \<open>y = d\<close> Cons show ?thesis by simp
    qed
  qed
qed

lemma sublist_bold_split:
  assumes "CHR ''*'' \<notin> set l" "sublist l (''**'' @ s @ ''**'' @ u)"
  shows "l = [] \<or> sublist l s \<or> sublist l u"
proof -
  from assms(2) have "sublist l ([] @ CHR ''*'' # (CHR ''*'' # s @ ''**'' @ u))" by simp
  from sublist_split_at[OF assms(1) this] have "l = [] \<or> sublist l ([] @ CHR ''*'' # s @ ''**'' @ u)"
    by auto
  then have "l = [] \<or> sublist l (s @ CHR ''*'' # (CHR ''*'' # u))"
    using sublist_split_at[OF assms(1), of "[]" "s @ ''**'' @ u"] by auto
  then have "l = [] \<or> sublist l s \<or> sublist l ([] @ CHR ''*'' # u)"
    using sublist_split_at[OF assms(1), of s "CHR ''*'' # u"] by auto
  then show ?thesis
    using sublist_split_at[OF assms(1), of "[]" u] by auto
qed

text \<open>After one replacement no label is left that was replaced or was absent before.\<close>

lemma replaceGlobal_removes_aux:
  "l \<noteq> [] \<Longrightarrow> pat \<noteq> [] \<Longrightarrow> rep = c # rep' \<Longrightarrow> c \<notin> set l
   \<Longrightarrow> (\<And>u. sublist l (rep @ u) \<Longrightarrow> sublist l u)
   \<Longrightarrow> l = pat \<or> \<not> sublist l t
   \<Longrightarrow> \<not> sublist l (replaceGlobal pat rep t)"
proof (induction pat rep t rule: replaceGlobal.induct)
  case (1 pat rep)
  then show ?case by simp
next
  case (2 pat rep d ds)
  show ?case
  proof (cases "prefix pat (d # ds)")
    case True
    have "sublist (drop (length pat) (d # ds)) (d # ds)"
      by (rule sublist_drop)
    with "2.prems"(6) have "l = pat \<or> \<not> sublist l (drop (length pat) (d # ds))"
      using sublist_order.order_trans by blast
    with "2.IH"(2)[OF "2.prems"(2) True "2.prems"(1,2,3,4,5)]
    have "\<not> sublist l (replaceGlobal pat rep (drop (length pat) (d # ds)))"
      by blast
    with "2.prems"(5) have "\<not> sublist l (rep @ replaceGlobal pat rep (drop (length pat) (d # ds)))"
      by blast
    with True "2.prems"(2) show ?thesis by simp
  next
    case False
    from "2.prems"(6) have "l = pat \<or> \<not> sublist l ds"
      by (auto simp: sublist_Cons_right)
    with "2.IH"(3)[OF "2.prems"(2) False "2.prems"(1,2,3,4,5)]
    have ih: "\<not> sublist l (replaceGlobal pat rep ds)"
      by blast
    have "\<not> prefix l (d # replaceGlobal pat rep ds)"
    proof
      assume p: "prefix l (d # replaceGlobal pat rep ds)"
      from "2.prems"(1) obtain y ys where l: "l = y # ys" by (cases l) auto
      with p have "y = d" "prefix ys (replaceGlobal pat (c # rep') ds)"
        using "2.prems"(3) by simp_all
      moreover from l "2.prems"(4) have "c \<notin> set ys" by simp
      ultimately have "prefix ys ds"
        using prefix_replaceGlobal[OF "2.prems"(2)] by blast
      with \<open>y = d\<close> l have pl: "prefix l (d # ds)" by simp
      with False "2.prems"(6) show False
        by (auto simp: sublist_Cons_right)
    qed
    with ih False "2.prems"(2) show ?thesis
      by (simp add: sublist_Cons_right)
  qed
qed

lemma replaceGlobal_removes:
  assumes "l \<noteq> []" "CHR ''*'' \<notin> set l" "pat \<noteq> []" "\<not> sublist l s"
    and "l = pat \<or> \<not> sublist l t"
  shows "\<not> sublist l (replaceGlobal pat (''**'' @ s @ ''**'') t)"
proof (rule replaceGlobal_removes_aux[OF assms(1,3) _ assms(2) _ assms(5)])
  show "''**'' @ s @ ''**'' = CHR ''*'' # (CHR ''*'' # s @ ''**'')" by simp
next
  fix u assume "sublist l ((''**'' @ s @ ''**'') @ u)"
  then have "sublist l (''**'' @ s @ ''**'' @ u)" by simp
  from sublist_bold_split[OF assms(2) this] assms(1,4) show "sublist l u" by blast
qed

lemma foldl_replace_unchanged:
  "\<forall>(l', m') \<in> set es. \<not> sublist l' t \<Longrightarrow>
     foldl (\<lambda>result (label, m). replaceGlobal label (bold m) result) t es = t"
  by (induction es arbitrary: t) (auto simp: replaceGlobal_unchanged)

lemma foldl_replace_removes:
  assumes "l \<noteq> []" "CHR ''*'' \<notin> set l"
  shows "\<forall>(l', m') \<in> set es. l' \<noteq> [] \<and> \<not> sublist l (shortName m')
     \<Longrightarrow> l \<in> fst ` set es \<or> \<not> sublist l t
     \<Longrightarrow> \<not> sublist l (foldl (\<lambda>result (label, m). replaceGlobal label (bold m) result) t es)"
proof (induction es arbitrary: t)
  case Nil
  then show ?case by simp
next
  case (Cons e es)
  obtain l' m' where e: "e = (l', m')" by (cases e)
  from Cons.prems(1) e have l': "l' \<noteq> []" "\<not> sublist l (shortName m')" by auto
  from Cons.prems(1) have rest: "\<forall>(l', m') \<in> set es. l' \<noteq> [] \<and> \<not> sublist l (shortName m')"
    by auto
  show ?case
  proof (cases "l = l' \<or> \<not> sublist l t")
    case True
    from replaceGlobal_removes[OF assms l'(1) l'(2) True]
    have "\<not> sublist l (replaceGlobal l' (bold m') t)" by (simp add: bold_def)
    with Cons.IH[OF rest, of "replaceGlobal l' (bold m') t"] e show ?thesis by simp
  next
    case False
    with Cons.prems(2) e have "l \<in> fst ` set es" by auto
    with Cons.IH[OF rest, of "replaceGlobal l' (bold m') t"] e show ?thesis by simp
  qed
qed

lemma star_special: "CHR ''*'' \<in> set regexSpecial"
  by (simp add: regexSpecial_def)

lemma properMap_label:
  assumes "properMap es" "(l, m) \<in> set es"
  shows "l \<noteq> []" "CHR ''*'' \<notin> set l" "\<forall>(l', m') \<in> set es. l' \<noteq> [] \<and> \<not> sublist l (shortName m')"
proof -
  from assms show "l \<noteq> []"
    by (auto simp: properMap_def list_all_iff)
  from assms have "\<forall>c \<in> set l. c \<notin> set regexSpecial"
    by (auto simp: properMap_def literalMap_def list_all_iff)
  with star_special show "CHR ''*'' \<notin> set l" by blast
  from assms show "\<forall>(l', m') \<in> set es. l' \<noteq> [] \<and> \<not> sublist l (shortName m')"
    by (fastforce simp: properMap_def list_all_iff)
qed

lemma deAnonymizeText_labelFree:
  assumes "properMap es"
  shows "labelFree es (deAnonymizeText t (Some es))"
proof -
  have "\<not> sublist l (deAnonymizeText t (Some es))" if "(l, m) \<in> set es" for l m
  proof -
    from that have "l \<in> fst ` set es" by force
    with foldl_replace_removes[OF properMap_label[OF assms that], of t]
    show ?thesis by (simp add: deAnonymizeText_def)
  qed
  then show ?thesis by (auto simp: labelFree_def list_all_iff)
qed

lemma deAnonymizeText_unchanged:
  assumes "labelFree es t"
  shows "deAnonymizeText t (Some es) = t"
  using assms foldl_replace_unchanged[of es t]
  by (auto simp: labelFree_def list_all_iff deAnonymizeText_def)

lemma deAnonymizeText_idem:
  assumes "properMap es"
  shows "deAnonymizeText (deAnonymizeText t (Some es)) (Some es) = deAnonymizeText t (Some es)"
  by (rule deAnonymizeText_unchanged[OF deAnonymizeText_labelFree[OF assms]])

lemma replaceGlobal_first:
  assumes "pat \<noteq> []"
  shows "\<not> sublist pat (a @ butlast pat) \<Longrightarrow>
     replaceGlobal pat rep (a @ pat @ b) = a @ rep @ replaceGlobal pat rep b"
proof (induction a)
  case Nil
  from assms obtain c cs where "pat @ b = c # cs" by (cases pat) auto
  moreover have "prefix pat (pat @ b)" by simp
  ultimately show ?case using assms
    by (metis append_Nil append_eq_conv_conj replaceGlobal.simps(2))
next
  case (Cons c a)
  have np: "\<not> prefix pat (c # a @ pat @ b)"
  proof
    assume "prefix pat (c # a @ pat @ b)"
    moreover have "pat @ b = butlast pat @ last pat # b"
      using assms by (metis append.assoc append_Cons append_Nil append_butlast_last_id)
    ultimately have "prefix pat (((c # a) @ butlast pat) @ (last pat # b))"
      by simp
    moreover have "length pat \<le> length ((c # a) @ butlast pat)" by simp
    ultimately have "prefix pat ((c # a) @ butlast pat)"
      by (metis prefix_append prefix_length_prefix prefix_order.order_refl append_prefixD prefixI)
    with Cons.prems show False by auto
  qed
  from Cons.prems have "\<not> sublist pat (a @ butlast pat)"
    by (auto simp: sublist_Cons_right)
  with Cons.IH np assms show ?case by simp
qed

lemma sublist_bold_context:
  assumes "CHR ''*'' \<notin> set l" "sublist l (a @ ''**'' @ s @ ''**'' @ b)"
  shows "sublist l a \<or> sublist l s \<or> sublist l b"
proof -
  from assms(2) have "sublist l (a @ CHR ''*'' # (''*'' @ s @ ''**'' @ b))" by simp
  from sublist_split_at[OF assms(1) this]
  have "sublist l a \<or> sublist l (''**'' @ s @ ''**'' @ b)"
  proof
    assume "sublist l (''*'' @ s @ ''**'' @ b)"
    then have "sublist l (''**'' @ s @ ''**'' @ b)"
      by (simp add: sublist_Cons_right)
    then show ?thesis ..
  qed simp
  then show ?thesis
  proof
    assume "sublist l (''**'' @ s @ ''**'' @ b)"
    from sublist_bold_split[OF assms(1) this] show ?thesis by auto
  qed simp
qed

lemma labels_of_other_entries:
  assumes "distinct (map fst es)" "es = es1 @ (label, m) # es2" "(l', m') \<in> set es1 \<union> set es2"
  shows "l' \<noteq> label"
proof
  assume "l' = label"
  with assms(3) have "label \<in> set (map fst es1) \<union> set (map fst es2)"
    by (metis Un_iff fst_conv image_eqI set_map)
  moreover from assms(1,2) have "distinct (map fst es1 @ label # map fst es2)"
    by simp
  ultimately show False by simp
qed

lemma deAnonymizeText_sole:
  assumes "properMap es" "(label, m) \<in> set es" "soleLabel es a label b"
  shows "deAnonymizeText (a @ label @ b) (Some es) = a @ bold m @ b"
proof -
  let ?f = "\<lambda>result (label, m). replaceGlobal label (bold m) result"
  let ?t = "a @ label @ b"
  from assms(1) have d: "distinct (map fst es)" by (simp add: properMap_def)
  from assms(2) obtain es1 es2 where es: "es = es1 @ (label, m) # es2"
    by (meson split_list)
  from assms(3) have s1: "\<not> sublist label (a @ butlast label)" and s2: "\<not> sublist label b"
    and s3: "list_all (\<lambda>(l', m'). l' = label \<or> \<not> sublist l' ?t) es"
    by (simp_all add: soleLabel_def)
  have other: "\<not> sublist l' ?t" if "(l', m') \<in> set es1 \<union> set es2" for l' m'
  proof -
    from that es have "(l', m') \<in> set es" by auto
    with s3 have "l' = label \<or> \<not> sublist l' ?t"
      unfolding list_all_iff by blast
    with labels_of_other_entries[OF d es that] show ?thesis by blast
  qed
  have ne: "label \<noteq> []" using properMap_label(1)[OF assms(1,2)] .
  have 1: "foldl ?f ?t es1 = ?t"
  proof (rule foldl_replace_unchanged, clarify)
    fix l' m' assume "(l', m') \<in> set es1" "sublist l' ?t"
    with other[of l' m'] show False by simp
  qed
  have "replaceGlobal label (bold m) ?t = a @ bold m @ replaceGlobal label (bold m) b"
    by (rule replaceGlobal_first[OF ne s1])
  also have "replaceGlobal label (bold m) b = b"
    by (rule replaceGlobal_unchanged[OF s2])
  finally have 2: "replaceGlobal label (bold m) ?t = a @ bold m @ b" .
  have 3: "foldl ?f (a @ bold m @ b) es2 = a @ bold m @ b"
  proof (rule foldl_replace_unchanged, clarify)
    fix l' m' assume mem: "(l', m') \<in> set es2" and sub: "sublist l' (a @ bold m @ b)"
    from mem es have mem': "(l', m') \<in> set es" by simp
    from mem other[of l' m'] have nt: "\<not> sublist l' ?t" by simp
    have sa: "sublist a ?t"
      by (rule sublist_append_rightI)
    have "sublist b ((a @ label) @ b)"
      by (rule sublist_append_leftI)
    then have sb: "sublist b ?t" by simp
    have na: "\<not> sublist l' a"
      using nt sa sublist_order.order_trans by blast
    have nb: "\<not> sublist l' b"
      using nt sb sublist_order.order_trans by blast
    from properMap_label(2)[OF assms(1) mem'] have st: "CHR ''*'' \<notin> set l'" .
    from properMap_label(3)[OF assms(1) mem'] assms(2) have ns: "\<not> sublist l' (shortName m)"
      by blast
    from sub have "sublist l' (a @ ''**'' @ shortName m @ ''**'' @ b)"
      by (simp add: bold_def)
    from sublist_bold_context[OF st this] na nb ns show False by blast
  qed
  have "deAnonymizeText ?t (Some es) = foldl ?f (?f (foldl ?f ?t es1) (label, m)) es2"
    unfolding deAnonymizeText_def es by simp
  also have "\<dots> = a @ bold m @ b"
    unfolding 1 by (simp add: 2 3)
  finally show ?thesis .
qed

subsection \<open>All entries in one pass\<close>

lemma matchLabel_SomeD:
  "matchLabel es t = Some (l, m) \<Longrightarrow> (l, m) \<in> set es \<and> l \<noteq> [] \<and> prefix l t"
  by (induction es) (auto split: if_splits)

lemma matchLabel_None:
  "(\<forall>(l, m) \<in> set es. l \<noteq> [] \<longrightarrow> \<not> prefix l t) \<Longrightarrow> matchLabel es t = None"
  by (induction es) auto

lemma matchLabel_cong:
  "(\<forall>(l, m) \<in> set es. l \<noteq> [] \<longrightarrow> prefix l t = prefix l t') \<Longrightarrow>
     matchLabel es t = matchLabel es t'"
  by (induction es) auto

lemma substituteAll_star:
  assumes "\<forall>(l, m) \<in> set es. CHR ''*'' \<notin> set l"
  shows "substituteAll es (CHR ''*'' # Y) = CHR ''*'' # substituteAll es Y"
proof -
  have "matchLabel es (CHR ''*'' # Y) = None"
  proof (rule matchLabel_None, clarify)
    fix l m assume lm: "(l, m) \<in> set es" "l \<noteq> []" "prefix l (CHR ''*'' # Y)"
    then obtain x xs where "l = x # xs" by (cases l) auto
    with lm(3) have "CHR ''*'' \<in> set l" by simp
    with assms lm(1) show False by auto
  qed
  then show ?thesis by simp
qed

lemma substituteAll_plain:
  assumes "\<forall>(l, m) \<in> set es. CHR ''*'' \<notin> set l"
  shows "\<forall>(l, m) \<in> set es. l \<noteq> [] \<longrightarrow> \<not> sublist l s \<Longrightarrow>
     substituteAll es (s @ CHR ''*'' # Y) = s @ substituteAll es (CHR ''*'' # Y)"
proof (induction s)
  case Nil
  then show ?case by simp
next
  case (Cons d s)
  have "matchLabel es (d # s @ CHR ''*'' # Y) = None"
  proof (rule matchLabel_None, clarify)
    fix l m assume lm: "(l, m) \<in> set es" "l \<noteq> []" "prefix l (d # s @ CHR ''*'' # Y)"
    from lm(1) assms have st: "CHR ''*'' \<notin> set l" by auto
    from lm(1,2) Cons.prems have ns: "\<not> sublist l (d # s)" by auto
    from lm(3) have "prefix l ((d # s) @ CHR ''*'' # Y)" by simp
    then consider "prefix l (d # s)" | us where "l = (d # s) @ us" "prefix us (CHR ''*'' # Y)"
      unfolding prefix_append by blast
    then show False
    proof cases
      case 1
      with ns show False by auto
    next
      case 2
      show False
      proof (cases us)
        case Nil
        with 2(1) ns show False by simp
      next
        case (Cons u us')
        with 2 st show False by auto
      qed
    qed
  qed
  moreover from Cons.prems have "\<forall>(l, m) \<in> set es. l \<noteq> [] \<longrightarrow> \<not> sublist l s"
    by (auto simp: sublist_Cons_right)
  ultimately show ?case using Cons.IH by simp
qed

lemma substituteAll_bold:
  assumes "\<forall>(l, m') \<in> set es. CHR ''*'' \<notin> set l"
    and "\<forall>(l, m') \<in> set es. l \<noteq> [] \<longrightarrow> \<not> sublist l (shortName m)"
  shows "substituteAll es (bold m @ X) = bold m @ substituteAll es X"
proof -
  have "substituteAll es (bold m @ X)
      = CHR ''*'' # CHR ''*'' # substituteAll es (shortName m @ CHR ''*'' # (CHR ''*'' # X))"
    by (simp add: bold_def substituteAll_star[OF assms(1)] del: substituteAll.simps)
  also have "substituteAll es (shortName m @ CHR ''*'' # (CHR ''*'' # X))
      = shortName m @ substituteAll es (CHR ''*'' # (CHR ''*'' # X))"
    by (rule substituteAll_plain[OF assms])
  also have "substituteAll es (CHR ''*'' # (CHR ''*'' # X)) = CHR ''*'' # CHR ''*'' # substituteAll es X"
    by (simp add: substituteAll_star[OF assms(1)] del: substituteAll.simps)
  finally show ?thesis by (simp add: bold_def)
qed

lemma replaceGlobal_skip:
  assumes "l \<noteq> []"
  shows "\<not> startsInside v l \<Longrightarrow> replaceGlobal l r (v @ rest) = v @ replaceGlobal l r rest"
proof (induction v)
  case Nil
  then show ?case by simp
next
  case (Cons d v)
  from Cons.prems have a: "\<not> prefix (d # v) l" "\<not> prefix l (d # v)" "\<not> startsInside v l"
    by simp_all
  have "\<not> prefix l ((d # v) @ rest)"
  proof
    assume "prefix l ((d # v) @ rest)"
    then consider "prefix l (d # v)" | us where "l = (d # v) @ us"
      unfolding prefix_append by blast
    then show False
    proof cases
      case 1
      with a(2) show False by simp
    next
      case 2
      then have "prefix (d # v) l" by simp
      with a(1) show False by simp
    qed
  qed
  with assms Cons.IH[OF a(3)] show ?case by simp
qed

lemma replaceGlobal_skip_label:
  assumes "l \<noteq> []" "l' \<noteq> []" "prefix l' t" "\<not> prefix l t" "\<not> startsInside (tl l') l"
  shows "replaceGlobal l r t = l' @ replaceGlobal l r (drop (length l') t)"
proof -
  from assms(2) obtain d v where l': "l' = d # v" by (cases l') auto
  from assms(3) obtain rest where t: "t = l' @ rest" by (auto simp: prefix_def)
  from assms(4) t l' have np: "\<not> prefix l (d # v @ rest)" by simp
  from assms(5) l' have "\<not> startsInside v l" by simp
  from replaceGlobal_skip[OF assms(1) this, of r rest] np assms(1) t l'
  show ?thesis by simp
qed

lemma bold_Cons: "bold m = CHR ''*'' # (CHR ''*'' # shortName m @ ''**'')"
  by (simp add: bold_def)

lemma drop_label: "l \<noteq> [] \<Longrightarrow> drop (length l - 1) cs = drop (length l) (c # cs)"
  by (cases l) simp_all

text \<open>Replacing one label first and the others in one pass is the one pass for all.\<close>

lemma substituteAll_replaceGlobal:
  assumes l: "l \<noteq> []"
    and es: "\<forall>(l', m') \<in> set es. l' \<noteq> [] \<and> CHR ''*'' \<notin> set l'
               \<and> \<not> sublist l' (shortName m) \<and> \<not> startsInside (tl l') l"
  shows "substituteAll es (replaceGlobal l (bold m) t) = substituteAll ((l, m) # es) t"
proof (induction t rule: length_induct)
  case (1 t)
  note IH = "1.IH"[rule_format]
  from es have st: "\<forall>(l', m') \<in> set es. CHR ''*'' \<notin> set l'"
    and ns: "\<forall>(l', m') \<in> set es. l' \<noteq> [] \<longrightarrow> \<not> sublist l' (shortName m)"
    by auto
  show ?case
  proof (cases t)
    case Nil
    with l show ?thesis by simp
  next
    case (Cons c cs)
    show ?thesis
    proof (cases "prefix l t")
      case True
      have len: "length (drop (length l) t) < length t"
        using l Cons by simp
      have "replaceGlobal l (bold m) t = bold m @ replaceGlobal l (bold m) (drop (length l) t)"
        using True l Cons by simp
      then have "substituteAll es (replaceGlobal l (bold m) t)
          = bold m @ substituteAll es (replaceGlobal l (bold m) (drop (length l) t))"
        by (simp add: substituteAll_bold[OF st ns] del: substituteAll.simps)
      also have "\<dots> = bold m @ substituteAll ((l, m) # es) (drop (length l) t)"
        using IH[OF len] by simp
      also have "\<dots> = substituteAll ((l, m) # es) t"
        using True l Cons drop_label[OF l, of cs c] by simp
      finally show ?thesis .
    next
      case False
      have R: "replaceGlobal l (bold m) t = c # replaceGlobal l (bold m) cs"
        using False l Cons by simp
      have pre: "prefix l' (replaceGlobal l (bold m) t) = prefix l' t"
        if "(l', m') \<in> set es" for l' m'
      proof
        assume "prefix l' (replaceGlobal l (bold m) t)"
        moreover from that st have "CHR ''*'' \<notin> set l'" by auto
        ultimately show "prefix l' t"
          using prefix_replaceGlobal[OF l, of "CHR ''*''" l' "CHR ''*'' # shortName m @ ''**''" t]
          by (simp add: bold_Cons)
      next
        assume p: "prefix l' t"
        from that es have "l' \<noteq> []" "\<not> startsInside (tl l') l" by auto
        from replaceGlobal_skip_label[OF l this(1) p False this(2), of "bold m"]
        show "prefix l' (replaceGlobal l (bold m) t)" by simp
      qed
      have M: "matchLabel es (replaceGlobal l (bold m) t) = matchLabel es t"
        by (rule matchLabel_cong) (use pre in auto)
      have M': "matchLabel ((l, m) # es) t = matchLabel es t"
        using False by simp
      show ?thesis
      proof (cases "matchLabel es t")
        case None
        have "length cs < length t" using Cons by simp
        from IH[OF this] None M M' R Cons show ?thesis by simp
      next
        case (Some e)
        obtain l' m' where e: "e = (l', m')" by (cases e)
        from matchLabel_SomeD[OF Some[unfolded e]]
        have mem: "(l', m') \<in> set es" and ne: "l' \<noteq> []" and p: "prefix l' t" by auto
        from mem es have "\<not> startsInside (tl l') l" by auto
        from replaceGlobal_skip_label[OF l ne p False this, of "bold m"]
        have sk: "replaceGlobal l (bold m) t
            = l' @ replaceGlobal l (bold m) (drop (length l') t)" .
        have len: "length (drop (length l') t) < length t"
          using ne Cons by simp
        have d1: "drop (length l' - 1) (replaceGlobal l (bold m) cs)
            = replaceGlobal l (bold m) (drop (length l') t)"
          using drop_label[OF ne, of "replaceGlobal l (bold m) cs" c] sk R by simp
        have d2: "drop (length l' - 1) cs = drop (length l') t"
          using drop_label[OF ne, of cs c] Cons by simp
        have "substituteAll es (replaceGlobal l (bold m) t)
            = bold m' @ substituteAll es (replaceGlobal l (bold m) (drop (length l') t))"
          using M Some e R d1 by simp
        also have "\<dots> = bold m' @ substituteAll ((l, m) # es) (drop (length l') t)"
          using IH[OF len] by simp
        also have "\<dots> = substituteAll ((l, m) # es) t"
          using M' Some e Cons d2 by simp
        finally show ?thesis .
      qed
    qed
  qed
qed

lemma substituteAll_Nil: "substituteAll [] t = t"
  by (induction t) simp_all

lemma startsInside_tl: "\<not> startsInside x y \<Longrightarrow> \<not> startsInside (tl x) y"
  by (cases x) simp_all

lemma foldl_substituteAll:
  "\<forall>(x, mx) \<in> set es. x \<noteq> [] \<and> CHR ''*'' \<notin> set x
   \<Longrightarrow> \<forall>(x, mx) \<in> set es. \<forall>(y, my) \<in> set es. \<not> sublist x (shortName my)
   \<Longrightarrow> distinct (map fst es)
   \<Longrightarrow> \<forall>(x, mx) \<in> set es. \<forall>(y, my) \<in> set es. x \<noteq> y \<longrightarrow> \<not> startsInside x y
   \<Longrightarrow> foldl (\<lambda>result (label, m). replaceGlobal label (bold m) result) t es
         = substituteAll es t"
proof (induction es arbitrary: t)
  case Nil
  then show ?case by (simp add: substituteAll_Nil)
next
  case (Cons e es)
  obtain l m where e: "e = (l, m)" by (cases e)
  from Cons.prems(1) e have l: "l \<noteq> []" by simp
  have cond: "\<forall>(l', m') \<in> set es. l' \<noteq> [] \<and> CHR ''*'' \<notin> set l'
               \<and> \<not> sublist l' (shortName m) \<and> \<not> startsInside (tl l') l"
  proof clarify
    fix l' m' assume mem: "(l', m') \<in> set es"
    from mem Cons.prems(1) have a: "l' \<noteq> []" "CHR ''*'' \<notin> set l'" by auto
    from mem Cons.prems(2) e have b: "\<not> sublist l' (shortName m)" by auto
    from mem Cons.prems(3) e have "l' \<noteq> l" by force
    with mem Cons.prems(4) e have "\<not> startsInside l' l" by auto
    then have c: "\<not> startsInside (tl l') l" by (rule startsInside_tl)
    from a b c show "l' \<noteq> [] \<and> CHR ''*'' \<notin> set l'
               \<and> \<not> sublist l' (shortName m) \<and> \<not> startsInside (tl l') l"
      by simp
  qed
  have "foldl (\<lambda>result (label, m). replaceGlobal label (bold m) result) t (e # es)
      = foldl (\<lambda>result (label, m). replaceGlobal label (bold m) result)
          (replaceGlobal l (bold m) t) es"
    by (simp add: e)
  also have "\<dots> = substituteAll es (replaceGlobal l (bold m) t)"
  proof (rule Cons.IH)
    show "\<forall>(x, mx) \<in> set es. x \<noteq> [] \<and> CHR ''*'' \<notin> set x"
      using Cons.prems(1) by auto
    show "\<forall>(x, mx) \<in> set es. \<forall>(y, my) \<in> set es. \<not> sublist x (shortName my)"
      using Cons.prems(2) by auto
    show "distinct (map fst es)"
      using Cons.prems(3) by simp
    show "\<forall>(x, mx) \<in> set es. \<forall>(y, my) \<in> set es. x \<noteq> y \<longrightarrow> \<not> startsInside x y"
      using Cons.prems(4) by auto
  qed
  also have "\<dots> = substituteAll ((l, m) # es) t"
    by (rule substituteAll_replaceGlobal[OF l cond])
  finally show ?case by (simp add: e)
qed

lemma deAnonymizeText_substituteAll:
  assumes "properMap es" "nonOverlapping es"
  shows "deAnonymizeText t (Some es) = substituteAll es t"
proof -
  have 1: "\<forall>(x, mx) \<in> set es. x \<noteq> [] \<and> CHR ''*'' \<notin> set x"
    using properMap_label(1,2)[OF assms(1)] by auto
  have 2: "\<forall>(x, mx) \<in> set es. \<forall>(y, my) \<in> set es. \<not> sublist x (shortName my)"
    using properMap_label(3)[OF assms(1)] by fastforce
  have 3: "distinct (map fst es)"
    using assms(1) by (simp add: properMap_def)
  have 4: "\<forall>(x, mx) \<in> set es. \<forall>(y, my) \<in> set es. x \<noteq> y \<longrightarrow> \<not> startsInside x y"
  proof clarify
    fix x mx y my assume "(x, mx) \<in> set es" "(y, my) \<in> set es" "x \<noteq> y" "startsInside x y"
    moreover from this(1,2) assms(2) have "\<not> clash x y"
      unfolding nonOverlapping_def list_all_iff by blast
    ultimately show False by (simp add: clash_def)
  qed
  from foldl_substituteAll[OF 1 2 3 4] show ?thesis
    by (simp add: deAnonymizeText_def)
qed

subsection \<open>Idempotence\<close>

text \<open>
  With a short name that contains a label the transform is not idempotent: the label
  inside the inserted name is replaced again.
\<close>

theorem deAnonymizeText_idempotent_counterexample:
  "literalMap [(''Response A'', ''acme/Response Assistant'')]
   \<and> deAnonymizeText ''Response A wins'' (Some [(''Response A'', ''acme/Response Assistant'')])
       = ''**Response Assistant** wins''
   \<and> deAnonymizeText ''**Response Assistant** wins''
         (Some [(''Response A'', ''acme/Response Assistant'')])
       = ''****Response Assistant**ssistant** wins''"
  by (simp add: literalMap_def regexSpecial_def deAnonymizeText_def bold_def shortName_def)

text \<open>
  Claim C5, amended. For a map whose labels are distinct, not empty, free of
  regular-expression syntax and occur in no short name of the map (and whose short names
  hold no \<^verbatim>\<open>$\<close>), no label occurs in de-anonymized text, and de-anonymizing it again
  returns it unchanged; without a map the transform is the identity.
\<close>

theorem deAnonymizeText_idempotent:
  assumes "properMap entries"
  shows "labelFree entries (deAnonymizeText text (Some entries))
       \<and> deAnonymizeText (deAnonymizeText text (Some entries)) (Some entries)
           = deAnonymizeText text (Some entries)
       \<and> deAnonymizeText (deAnonymizeText text None) None = deAnonymizeText text None"
  using deAnonymizeText_labelFree[OF assms, of "text"] deAnonymizeText_idem[OF assms, of "text"]
  by (simp add: deAnonymizeText_def)

theorem deAnonymizeText_idempotent_witness:
  "properMap [(''Response A'', ''openai/gpt-5.1''), (''Response B'', ''google/gemini-3-pro'')]
   \<and> deAnonymizeText ''Response A beats Response B''
        (Some [(''Response A'', ''openai/gpt-5.1''), (''Response B'', ''google/gemini-3-pro'')])
       = ''**gpt-5.1** beats **gemini-3-pro**''
   \<and> deAnonymizeText
        (deAnonymizeText ''Response A beats Response B''
           (Some [(''Response A'', ''openai/gpt-5.1''), (''Response B'', ''google/gemini-3-pro'')]))
        (Some [(''Response A'', ''openai/gpt-5.1''), (''Response B'', ''google/gemini-3-pro'')])
       = ''**gpt-5.1** beats **gemini-3-pro**''"
proof -
  let ?E = "[(''Response A'', ''openai/gpt-5.1''), (''Response B'', ''google/gemini-3-pro'')]"
  have h: "properMap ?E"
    by (simp add: properMap_def literalMap_def regexSpecial_def shortName_def sublist_code)
  have v: "deAnonymizeText ''Response A beats Response B'' (Some ?E)
             = ''**gpt-5.1** beats **gemini-3-pro**''"
    by (simp add: deAnonymizeText_def bold_def shortName_def)
  from deAnonymizeText_idempotent[OF h, of "''Response A beats Response B''"]
  have "deAnonymizeText (deAnonymizeText ''Response A beats Response B'' (Some ?E)) (Some ?E)
          = deAnonymizeText ''Response A beats Response B'' (Some ?E)"
    by blast
  with h v show ?thesis by simp
qed

subsection \<open>What is substituted\<close>

text \<open>
  A label is replaced by the short name between \<^verbatim>\<open>**\<close>, not by the short name; and the
  entries are applied one after the other, so the occurrence of a label that contains the
  label of an earlier entry is not replaced by the name of its model.
\<close>

theorem deAnonymizeText_substitution_counterexample:
  "shortName ''openai/gpt-5.1'' = ''gpt-5.1''
   \<and> deAnonymizeText ''Response A'' (Some [(''Response A'', ''openai/gpt-5.1'')])
       = ''**gpt-5.1**''
   \<and> literalMap [(''Response A'', ''openai/gpt-5.1''), (''Response AA'', ''google/gemini-3-pro'')]
   \<and> deAnonymizeText ''Response AA''
         (Some [(''Response A'', ''openai/gpt-5.1''), (''Response AA'', ''google/gemini-3-pro'')])
       = ''**gpt-5.1**A''"
  by (simp add: literalMap_def regexSpecial_def deAnonymizeText_def bold_def shortName_def)

text \<open>
  Claim C6, amended. For a map whose labels are free of regular-expression syntax and
  whose short names hold no \<^verbatim>\<open>$\<close>: without a map, and for a text in which no label
  occurs, the transform returns the text unchanged. If moreover the labels are distinct,
  not empty and occur in no short name of the map, then no label occurs in the result;
  if in addition no occurrence of a label can start inside an occurrence of a label, the
  transform is the one pass that replaces every occurrence of every label by the short
  name of its model between \<^verbatim>\<open>**\<close> and copies every other character; and a text
  \<open>a @ label @ b\<close> in which the label shown is the first occurrence of that label, none
  follows, and no other label of the map occurs, becomes \<open>a\<close>, then the short name of the
  label's model between \<^verbatim>\<open>**\<close>, then \<open>b\<close>.
\<close>

theorem deAnonymizeText_substitution:
  assumes "literalMap entries"
  shows "deAnonymizeText text None = text
       \<and> (labelFree entries text \<longrightarrow> deAnonymizeText text (Some entries) = text)
       \<and> (properMap entries \<longrightarrow>
            labelFree entries (deAnonymizeText text (Some entries))
          \<and> (nonOverlapping entries \<longrightarrow>
                deAnonymizeText text (Some entries) = substituteAll entries text)
          \<and> (\<forall>label m a b. (label, m) \<in> set entries \<longrightarrow> soleLabel entries a label b \<longrightarrow>
                deAnonymizeText (a @ label @ b) (Some entries)
                  = a @ ''**'' @ shortName m @ ''**'' @ b))"
proof (intro conjI impI allI)
  show "deAnonymizeText text None = text"
    by (simp add: deAnonymizeText_def)
next
  assume "labelFree entries text"
  then show "deAnonymizeText text (Some entries) = text"
    by (rule deAnonymizeText_unchanged)
next
  assume "properMap entries"
  then show "labelFree entries (deAnonymizeText text (Some entries))"
    by (rule deAnonymizeText_labelFree)
next
  assume "properMap entries" "nonOverlapping entries"
  then show "deAnonymizeText text (Some entries) = substituteAll entries text"
    by (rule deAnonymizeText_substituteAll)
next
  fix label m a b
  assume "properMap entries" "(label, m) \<in> set entries" "soleLabel entries a label b"
  from deAnonymizeText_sole[OF this]
  show "deAnonymizeText (a @ label @ b) (Some entries) = a @ ''**'' @ shortName m @ ''**'' @ b"
    by (simp add: bold_def)
qed

theorem deAnonymizeText_substitution_witness:
  "literalMap [(''Response A'', ''openai/gpt-5.1''), (''Response B'', ''google/gemini-3-pro'')]
   \<and> properMap [(''Response A'', ''openai/gpt-5.1''), (''Response B'', ''google/gemini-3-pro'')]
   \<and> nonOverlapping
        [(''Response A'', ''openai/gpt-5.1''), (''Response B'', ''google/gemini-3-pro'')]
   \<and> labelFree [(''Response A'', ''openai/gpt-5.1''), (''Response B'', ''google/gemini-3-pro'')]
        ''no labels here''
   \<and> deAnonymizeText ''no labels here''
        (Some [(''Response A'', ''openai/gpt-5.1''), (''Response B'', ''google/gemini-3-pro'')])
       = ''no labels here''
   \<and> soleLabel [(''Response A'', ''openai/gpt-5.1''), (''Response B'', ''google/gemini-3-pro'')]
        ''I prefer '' ''Response B'' ''.''
   \<and> deAnonymizeText (''I prefer '' @ ''Response B'' @ ''.'')
        (Some [(''Response A'', ''openai/gpt-5.1''), (''Response B'', ''google/gemini-3-pro'')])
       = ''I prefer '' @ ''**'' @ shortName ''google/gemini-3-pro'' @ ''**'' @ ''.''
   \<and> labelFree [(''Response A'', ''openai/gpt-5.1''), (''Response B'', ''google/gemini-3-pro'')]
        (deAnonymizeText ''Response A beats Response B''
           (Some [(''Response A'', ''openai/gpt-5.1''), (''Response B'', ''google/gemini-3-pro'')]))
   \<and> deAnonymizeText ''Response B, then Response A, not Response B''
        (Some [(''Response A'', ''openai/gpt-5.1''), (''Response B'', ''google/gemini-3-pro'')])
       = ''**gemini-3-pro**, then **gpt-5.1**, not **gemini-3-pro**''"
proof -
  let ?E = "[(''Response A'', ''openai/gpt-5.1''), (''Response B'', ''google/gemini-3-pro'')]"
  have h1: "literalMap ?E"
    by (simp add: literalMap_def regexSpecial_def shortName_def)
  have h2: "properMap ?E"
    by (simp add: properMap_def literalMap_def regexSpecial_def shortName_def sublist_code)
  have h3: "labelFree ?E ''no labels here''"
    by (simp add: labelFree_def sublist_code)
  have h4: "soleLabel ?E ''I prefer '' ''Response B'' ''.''"
    by (simp add: soleLabel_def sublist_code)
  have h5: "(''Response B'', ''google/gemini-3-pro'') \<in> set ?E"
    by simp
  have h6: "nonOverlapping ?E"
    by (simp add: nonOverlapping_def clash_def)
  have v: "substituteAll ?E ''Response B, then Response A, not Response B''
       = ''**gemini-3-pro**, then **gpt-5.1**, not **gemini-3-pro**''"
    by (simp add: bold_def shortName_def)
  from deAnonymizeText_substitution[OF h1, of "''no labels here''"] h3
  have a: "deAnonymizeText ''no labels here'' (Some ?E) = ''no labels here''"
    by blast
  from deAnonymizeText_substitution[OF h1, of "''Response A beats Response B''"] h2
  have b: "labelFree ?E (deAnonymizeText ''Response A beats Response B'' (Some ?E))"
    by blast
  from deAnonymizeText_substitution[OF h1, of "[]"] h2 h4 h5
  have c: "deAnonymizeText (''I prefer '' @ ''Response B'' @ ''.'') (Some ?E)
       = ''I prefer '' @ ''**'' @ shortName ''google/gemini-3-pro'' @ ''**'' @ ''.''"
    by blast
  from deAnonymizeText_substitution[OF h1, of "''Response B, then Response A, not Response B''"]
    h2 h6
  have "deAnonymizeText ''Response B, then Response A, not Response B'' (Some ?E)
       = substituteAll ?E ''Response B, then Response A, not Response B''"
    by blast
  with v have d: "deAnonymizeText ''Response B, then Response A, not Response B'' (Some ?E)
       = ''**gemini-3-pro**, then **gpt-5.1**, not **gemini-3-pro**''"
    by simp
  from h1 h2 h3 h4 h6 a b c d show ?thesis by blast
qed

end
